theory Spec2Isabelle
  imports Main "HOL-Library.Word" "HOL-Library.Char_ord" "HOL-Library.List_Lexorder"
begin

unbundle bit_operations_syntax

section \<open>Python values used by the driver\<close>

text \<open>
  Every exception the driver can raise is a value. The four \<open>ValueError\<close>s the
  driver raises itself are kept apart by their message; \<open>InvalidLiteral\<close> is the
  \<open>ValueError\<close> of \<open>int(str)\<close>, \<open>StructError\<close> is \<open>struct.error\<close>,
  \<open>DecodeLengthMismatch\<close> is the failure of the register parser, and
  \<open>TransportError\<close> stands for whatever the USB or I2C layer raises.
\<close>

datatype error =
    KeyError
  | IndexError
  | TypeError
  | AttributeError
  | UnboundLocalError
  | StructError
  | InvalidLiteral
  | UnknownRegisterAddress int
  | RegisterHasBits string int
  | UnknownRegisterName string
  | MustSpecify
  | IncorrectDataLength
  | DecodeLengthMismatch
  | TransportError

type_synonym 'a result = "error + 'a"

text \<open>Sequencing of fallible steps: the first exception raised ends the computation.\<close>

definition ebind :: "'a result \<Rightarrow> ('a \<Rightarrow> 'b result) \<Rightarrow> 'b result" where
  "ebind r f = (case r of Inl e \<Rightarrow> Inl e | Inr x \<Rightarrow> f x)"

text \<open>\<open>xs[i]\<close> on a Python list: a negative index counts from the end, an index out of
  range raises \<open>IndexError\<close>.\<close>

definition py_index :: "'a list \<Rightarrow> int \<Rightarrow> 'a result" where
  "py_index xs i =
     (if 0 \<le> i \<and> i < int (length xs) then Inr (xs ! nat i)
      else if i < 0 \<and> - int (length xs) \<le> i then Inr (xs ! nat (int (length xs) + i))
      else Inl IndexError)"

text \<open>A \<open>dict\<close> is an association list in insertion order with distinct keys:
  \<open>d[k] = v\<close> overwrites the value of a key that is present, where it stands, and
  appends a new key at the end.\<close>

primrec dict_set :: "'k \<Rightarrow> 'v \<Rightarrow> ('k \<times> 'v) list \<Rightarrow> ('k \<times> 'v) list" where
  "dict_set k v [] = [(k, v)]"
| "dict_set k v (p # ps) = (if fst p = k then (k, v) # ps else p # dict_set k v ps)"

definition dict_get :: "('k \<times> 'v) list \<Rightarrow> 'k \<Rightarrow> 'v result" where
  "dict_get d k = (case map_of d k of None \<Rightarrow> Inl KeyError | Some v \<Rightarrow> Inr v)"

section \<open>Module constants\<close>

definition ADDR_USC12 :: int where "ADDR_USC12 = 0x57"
definition ADDR_USC34 :: int where "ADDR_USC34 = 0x56"

definition UCS2113_CURRENT_LIMIT :: int where "UCS2113_CURRENT_LIMIT = 0x14"

definition UCS2113_CURRENT_MAP :: "int list" where
  "UCS2113_CURRENT_MAP = [530, 960, 1070, 1280, 1600, 2130, 2670, 3200]"

definition PORT_MAP :: "string list" where
  "PORT_MAP = [''port2'', ''port4'', ''port1'', ''port3'']"

definition REGISTER_NEEDS_PORT_REMAP :: "string list" where
  "REGISTER_NEEDS_PORT_REMAP = [''port::connection'', ''port::device_speed'']"

definition REG_BASE_DFT :: int where "REG_BASE_DFT = 0xBF800000"

section \<open>The register catalog: \<open>find\<close> and \<open>find_name\<close>\<close>

datatype endian = Big | Little

text \<open>\<open>self.mapping\<close>: register name to \<open>[address, bits, endian]\<close>.\<close>

type_synonym catalog = "(string \<times> (int \<times> int \<times> endian)) list"

fun find_name :: "catalog \<Rightarrow> int \<Rightarrow> string result" where
  "find_name [] register = Inl (UnknownRegisterAddress register)"
| "find_name ((name, value) # rest) register =
     (if fst value = register then Inr name else find_name rest register)"

definition find_reg :: "catalog \<Rightarrow> string \<Rightarrow> (int \<times> int \<times> endian) result" where
  "find_reg mapping name =
     (case map_of mapping name of
        Some (register, bits, endian) \<Rightarrow>
          if bits \<in> set [8, 16, 24, 32] then Inr (register, bits, endian)
          else Inl (RegisterHasBits name bits)
      | None \<Rightarrow> Inl (UnknownRegisterName name))"

section \<open>Current limits\<close>

text \<open>\<open>self.i2c.read_i2c_block_data\<close> belongs to the I2C bridge; it is a parameter
  here: given the chip address and the register address it returns the block read, or
  raises.\<close>

type_synonym i2c_read = "int \<Rightarrow> int \<Rightarrow> int list result"

text \<open>One turn of the loop of \<open>current_limits\<close>: read the chip, append its two 3-bit
  fields to \<open>out\<close>.\<close>

definition current_limits_chip :: "i2c_read \<Rightarrow> int list \<Rightarrow> int \<Rightarrow> int list result" where
  "current_limits_chip rd out i2c_addr =
     ebind (rd i2c_addr UCS2113_CURRENT_LIMIT) (\<lambda>block.
     ebind (py_index block 0) (\<lambda>v.
       Inr (out @ [v AND 7] @ [drop_bit 3 v AND 7])))"

definition current_limits :: "i2c_read \<Rightarrow> int list result" where
  "current_limits rd =
     ebind (current_limits_chip rd [] ADDR_USC12) (\<lambda>out1.
     ebind (current_limits_chip rd out1 ADDR_USC34) (\<lambda>out.
       fold (\<lambda>key acc. ebind acc (\<lambda>ys.
               ebind (py_index UCS2113_CURRENT_MAP key) (\<lambda>y. Inr (ys @ [y]))))
            out (Inr [])))"

section \<open>Visible fields\<close>

text \<open>\<open>~b\<close> on a Python \<open>bool\<close> is the integer \<open>-2\<close> or \<open>-1\<close>, and an integer is
  truthy when it is not zero.\<close>

definition py_invert_bool :: "bool \<Rightarrow> int" where
  "py_invert_bool b = - (if b then 1 else 0) - 1"

definition py_truthy :: "int \<Rightarrow> bool" where
  "py_truthy i = (i \<noteq> 0)"

definition startswith :: "string \<Rightarrow> string \<Rightarrow> bool" where
  "startswith s p = (take (length p) s = p)"

text \<open>The lambda of \<open>register_keys\<close>: \<open>key[0]\<close> raises on the empty key; \<open>and\<close> gives
  the second operand when the first is true.\<close>

definition keep_key :: "string \<Rightarrow> bool result" where
  "keep_key key =
     (case key of
        [] \<Rightarrow> Inl IndexError
      | c # _ \<Rightarrow> Inr (if c \<noteq> CHR ''_''
                       then py_truthy (py_invert_bool (startswith key ''reserved''))
                       else False))"

fun filter_keys :: "string list \<Rightarrow> string list result" where
  "filter_keys [] = Inr []"
| "filter_keys (key # keys) =
     ebind (keep_key key) (\<lambda>b.
     ebind (filter_keys keys) (\<lambda>rest. Inr (if b then key # rest else rest)))"

text \<open>With \<open>sort\<close> false the function never binds \<open>keys\<close>.\<close>

definition register_keys :: "(string \<times> int) list \<Rightarrow> bool \<Rightarrow> string list result" where
  "register_keys body sort_flag =
     (if sort_flag then filter_keys (sort (map fst body)) else Inl UnboundLocalError)"

section \<open>Strings\<close>

text \<open>\<open>s.replace(old, new)\<close>: every occurrence of \<open>old\<close>, found from the left without
  overlap, becomes \<open>new\<close>. \<open>replace_from\<close> walks the string; its counter is the number
  of characters of a match still to be dropped.\<close>

fun replace_from :: "string \<Rightarrow> string \<Rightarrow> nat \<Rightarrow> string \<Rightarrow> string" where
  "replace_from old new k [] = []"
| "replace_from old new (Suc k) (c # cs) = replace_from old new k cs"
| "replace_from old new 0 (c # cs) =
     (if startswith (c # cs) old then new @ replace_from old new (length old - 1) cs
      else c # replace_from old new 0 cs)"

definition str_replace :: "string \<Rightarrow> string \<Rightarrow> string \<Rightarrow> string" where
  "str_replace old new s =
     (if old = [] then concat (map (\<lambda>c. new @ [c]) s) @ new else replace_from old new 0 s)"

text \<open>\<open>s.split(sep)\<close> for a separator that is not empty (the driver splits on \<open>::\<close>
  only): \<open>cur\<close> is the piece being read.\<close>

fun split_from :: "string \<Rightarrow> nat \<Rightarrow> string \<Rightarrow> string \<Rightarrow> string list" where
  "split_from sep k cur [] = [cur]"
| "split_from sep (Suc k) cur (c # cs) = split_from sep k cur cs"
| "split_from sep 0 cur (c # cs) =
     (if startswith (c # cs) sep then cur # split_from sep (length sep - 1) [] cs
      else split_from sep 0 (cur @ [c]) cs)"

definition str_split :: "string \<Rightarrow> string \<Rightarrow> string list" where
  "str_split sep s = split_from sep 0 [] s"

text \<open>\<open>int(s)\<close> for a string: white space around the literal is dropped, a sign may
  come first, then decimal digits, with single underscores allowed between digits.
  Everything else raises \<open>ValueError\<close>. Only ASCII is read.\<close>

definition is_space :: "char \<Rightarrow> bool" where
  "is_space c = (c \<in> set [CHR '' '', CHR 0x09, CHR 0x0A, CHR 0x0B, CHR 0x0C, CHR 0x0D,
                            CHR 0x1C, CHR 0x1D, CHR 0x1E, CHR 0x1F])"

definition py_strip :: "string \<Rightarrow> string" where
  "py_strip s = rev (dropWhile is_space (rev (dropWhile is_space s)))"

definition digit_val :: "char \<Rightarrow> int option" where
  "digit_val c =
     (if CHR ''0'' \<le> c \<and> c \<le> CHR ''9'' then Some (of_char c - 48) else None)"

fun digits_value :: "int \<Rightarrow> bool \<Rightarrow> string \<Rightarrow> int result" where
  "digits_value acc after_digit [] = (if after_digit then Inr acc else Inl InvalidLiteral)"
| "digits_value acc after_digit (c # cs) =
     (if c = CHR ''_''
      then (if after_digit then digits_value acc False cs else Inl InvalidLiteral)
      else (case digit_val c of
              None \<Rightarrow> Inl InvalidLiteral
            | Some d \<Rightarrow> digits_value (10 * acc + d) True cs))"

definition py_int :: "string \<Rightarrow> int result" where
  "py_int s =
     (case py_strip s of
        [] \<Rightarrow> Inl InvalidLiteral
      | c # cs \<Rightarrow>
          if c = CHR ''-'' then ebind (digits_value 0 False cs) (\<lambda>n. Inr (- n))
          else if c = CHR ''+'' then digits_value 0 False cs
          else digits_value 0 False (c # cs))"

section \<open>Decoded registers and the port remap\<close>

text \<open>
  A decoded register is an object with an address, a length and a body of named
  fields. \<open>parse_register\<close> copies such an object and then assigns to fields of the
  other one, so objects live in a store: a reference is an index into the list of
  objects allocated so far, and allocation appends.
\<close>

record reg_obj =
  addr :: int
  len :: int
  body :: "(string \<times> int) list"

type_synonym heap = "reg_obj list"

type_synonym u8 = "8 word"

text \<open>\<open>registers.parse(stream)[0]\<close> comes from the module \<open>registers\<close>, which the
  driver imports; where the driver's own code is modelled it is a parameter: from the
  store and the stream it gives the new store and the reference of the decoded object.\<close>

type_synonym parser = "heap \<Rightarrow> u8 list \<Rightarrow> (heap \<times> nat) result"

definition deepcopy :: "heap \<Rightarrow> nat \<Rightarrow> heap \<times> nat" where
  "deepcopy h p = (h @ [h ! p], length h)"

text \<open>\<open>PORT_MAP[int(key.replace("port",""))-1]\<close>\<close>

definition remap_key :: "string \<Rightarrow> string result" where
  "remap_key key = ebind (py_int (str_replace ''port'' [] key)) (\<lambda>n. py_index PORT_MAP (n - 1))"

text \<open>The loop over \<open>raw.body.items()\<close>; each turn assigns to \<open>parsed.body\<close> in the
  store.\<close>

fun remap_loop :: "heap \<Rightarrow> nat \<Rightarrow> (string \<times> int) list \<Rightarrow> heap result" where
  "remap_loop h parsed [] = Inr h"
| "remap_loop h parsed ((key, val) # items) =
     (if key \<in> set PORT_MAP
      then ebind (remap_key key) (\<lambda>port.
             remap_loop (h[parsed := (h ! parsed)\<lparr>body := dict_set port val (body (h ! parsed))\<rparr>])
               parsed items)
      else remap_loop h parsed items)"

text \<open>The \<open>if name in REGISTER_NEEDS_PORT_REMAP\<close> block of \<open>parse_register\<close>.\<close>

definition remap_step :: "heap \<Rightarrow> string \<Rightarrow> nat \<Rightarrow> heap result" where
  "remap_step h name parsed =
     (if name \<in> set REGISTER_NEEDS_PORT_REMAP
      then (case deepcopy h parsed of (h1, raw) \<Rightarrow> remap_loop h1 parsed (body (h1 ! raw)))
      else Inr h)"

definition parse_register :: "parser \<Rightarrow> heap \<Rightarrow> string \<Rightarrow> u8 list \<Rightarrow> (heap \<times> nat) result" where
  "parse_register parse h name stream =
     ebind (parse h stream) (\<lambda>(h1, parsed).
     ebind (remap_step h1 name parsed) (\<lambda>h2. Inr (h2, parsed)))"

section \<open>Reading a register\<close>

text \<open>Modelled from the spec: \<open>bits_to_bytes\<close> of the module \<open>util\<close>, which is not among
  the sources. The spec has the third byte of the stream hold the length in bytes.\<close>

definition bits_to_bytes :: "int \<Rightarrow> int" where
  "bits_to_bytes bits = bits div 8"

text \<open>Modelled from the spec: \<open>int_from_bytes\<close> of the module \<open>util\<close>, which is not among
  the sources. The spec has the value extracted from the bytes in the byte order
  declared for the register.\<close>

definition int_from_bytes :: "u8 list \<Rightarrow> endian \<Rightarrow> int" where
  "int_from_bytes data endian =
     (case endian of
        Big \<Rightarrow> foldl (\<lambda>acc b. acc * 256 + uint b) 0 data
      | Little \<Rightarrow> foldl (\<lambda>acc b. acc * 256 + uint b) 0 (rev data))"

text \<open>\<open>struct.pack\<close> with a format that starts with \<open>>\<close>: big-endian, standard sizes,
  no padding. An unsigned field of \<open>n\<close> bytes takes a value from 0 to \<open>2^(8n) - 1\<close>; any
  other value raises \<open>struct.error\<close>.\<close>

fun be_bytes :: "nat \<Rightarrow> int \<Rightarrow> u8 list" where
  "be_bytes 0 v = []"
| "be_bytes (Suc n) v = be_bytes n (v div 256) @ [word_of_int v]"

definition pack_uint :: "nat \<Rightarrow> int \<Rightarrow> u8 list result" where
  "pack_uint n v = (if 0 \<le> v \<and> v < 2 ^ (8 * n) then Inr (be_bytes n v) else Inl StructError)"

datatype code = B | H | L

fun code_size :: "code \<Rightarrow> nat" where
  "code_size B = 1"
| "code_size H = 2"
| "code_size L = 4"

text \<open>\<open>struct.pack(">HB" + code, *[address, num, value])\<close>\<close>

definition struct_pack_HB :: "code \<Rightarrow> int \<Rightarrow> int \<Rightarrow> int \<Rightarrow> u8 list result" where
  "struct_pack_HB c address num val =
     ebind (pack_uint 2 address) (\<lambda>a.
     ebind (pack_uint 1 num) (\<lambda>n.
     ebind (pack_uint (code_size c) val) (\<lambda>v. Inr (a @ n @ v))))"

text \<open>The \<open>if bits == 8 ... elif bits == 32\<close> chain of \<open>register_read\<close>: the format
  character and the shift. For any other width \<open>code\<close> is never bound.\<close>

definition code_shift :: "int \<Rightarrow> (code \<times> nat) option" where
  "code_shift bits =
     (if bits = 8 then Some (B, 0)
      else if bits = 16 then Some (H, 0)
      else if bits = 24 then Some (L, 8)
      else if bits = 32 then Some (L, 0)
      else None)"

text \<open>The encode step of \<open>register_read\<close>: from the address, the width and the value read
  to the stream handed to the parser.\<close>

definition encode_stream :: "int \<Rightarrow> int \<Rightarrow> int \<Rightarrow> u8 list result" where
  "encode_stream address bits val =
     (case code_shift bits of
        None \<Rightarrow> Inl UnboundLocalError
      | Some (c, shift) \<Rightarrow> struct_pack_HB c address (bits_to_bytes bits) (push_bit shift val))"

text \<open>\<open>self.dev.ctrl_transfer(REQ_IN, CMD_REG_READ, value, index, length)\<close> is the USB
  layer: a parameter that, from \<open>value\<close>, \<open>index\<close> and \<open>length\<close>, gives the bytes read or
  raises.\<close>

type_synonym ctrl_transfer = "int \<Rightarrow> int \<Rightarrow> int \<Rightarrow> u8 list result"

text \<open>
  \<open>register_read(name, addr, length)\<close> with \<open>print\<close> left false (printing and logging
  are output only). It returns the store, the data reversed and the reference of the
  parsed object. \<open>int(bits / 8)\<close> is \<open>bits div 8\<close> for the widths \<open>find\<close> lets through.
  Without a name, \<open>find_name(None)\<close> finds nothing and its error message calls
  \<open>hex(None)\<close>, a \<open>TypeError\<close>; with an address only, \<open>bits\<close> is never bound, so the read
  stops at \<open>if bits == 8\<close> once the length check has passed.
\<close>

definition register_read ::
  "catalog \<Rightarrow> ctrl_transfer \<Rightarrow> parser \<Rightarrow> heap \<Rightarrow> string option \<Rightarrow> int option \<Rightarrow> int
     \<Rightarrow> (heap \<times> u8 list \<times> nat) result" where
  "register_read mapping ctrl parse h name_arg addr_arg length_arg =
     (case name_arg of
        Some name \<Rightarrow>
          ebind (find_reg mapping name) (\<lambda>(address, bits, endian).
            (let a = address + REG_BASE_DFT; n = bits div 8 in
             ebind (ctrl (a AND 0xFFFF) (drop_bit 16 a) n) (\<lambda>data.
               if n \<noteq> int (length data) then Inl IncorrectDataLength
               else
                 ebind (encode_stream address bits (int_from_bytes data endian)) (\<lambda>stream.
                 ebind (parse_register parse h name stream) (\<lambda>(h', parsed).
                   Inr (h', rev data, parsed))))))
      | None \<Rightarrow>
          (case addr_arg of
             None \<Rightarrow> Inl TypeError
           | Some a \<Rightarrow>
               ebind (find_name mapping a) (\<lambda>name.
               ebind (ctrl (a AND 0xFFFF) (drop_bit 16 a) length_arg) (\<lambda>data.
                 if length_arg \<noteq> int (length data) then Inl IncorrectDataLength
                 else Inl UnboundLocalError))))"

section \<open>Port speeds\<close>

definition speed_names :: "string list" where
  "speed_names = [''none'', ''low'', ''full'', ''high'']"

text \<open>\<open>[speeds[speed.body[key]] for key in keys]\<close>\<close>

fun speeds_list :: "(string \<times> int) list \<Rightarrow> string list \<Rightarrow> string list result" where
  "speeds_list b [] = Inr []"
| "speeds_list b (key # keys) =
     ebind (dict_get b key) (\<lambda>v.
     ebind (py_index speed_names v) (\<lambda>s.
     ebind (speeds_list b keys) (\<lambda>rest. Inr (s # rest))))"

definition speeds :: "catalog \<Rightarrow> ctrl_transfer \<Rightarrow> parser \<Rightarrow> heap \<Rightarrow> (heap \<times> string list) result" where
  "speeds mapping ctrl parse h =
     ebind (register_read mapping ctrl parse h (Some ''port::device_speed'') None 1)
       (\<lambda>(h', data, speed).
     ebind (register_keys (body (h' ! speed)) True) (\<lambda>keys.
     ebind (speeds_list (body (h' ! speed)) keys) (\<lambda>out. Inr (h', out))))"

section \<open>Building the catalog\<close>

text \<open>
  \<open>self.definition\<close> holds the loaded schema documents, keyed by file name. Of a
  document the driver reads \<open>types\<close>; of a type its \<open>seq\<close> and, when present, its
  \<open>meta\<close>; of a field its \<open>type\<close>, which is a string (\<open>b3\<close>, or the name of a type) or,
  for the body of \<open>register\<close>, a switch with its table of \<open>cases\<close> from address to name.
  Loading the files is outside the driver; the loaded documents are the input here.
\<close>

datatype field_type = TypeName string | TypeSwitch "(int \<times> string) list"

record seq_field =
  field_id :: string
  field_type :: field_type

record type_def =
  seq :: "seq_field list"
  meta :: "(string \<times> string) list option"

type_synonym schema = "(string \<times> (string \<times> type_def) list) list"

text \<open>\<open>self.definition['usb4715']['types']['register']['seq'][-1]['type']['cases']\<close>;
  subscripting a string with \<open>'cases'\<close> is a \<open>TypeError\<close>.\<close>

definition register_cases :: "schema \<Rightarrow> (int \<times> string) list result" where
  "register_cases defs =
     ebind (dict_get defs ''usb4715'') (\<lambda>doc.
     ebind (dict_get doc ''register'') (\<lambda>t.
     ebind (py_index (seq t) (- 1)) (\<lambda>f.
       case field_type f of
         TypeSwitch cases \<Rightarrow> Inr cases
       | TypeName _ \<Rightarrow> Inl TypeError)))"

text \<open>\<open>{v:k for k,v in mapping.items()}\<close>\<close>

definition flip_cases :: "(int \<times> string) list \<Rightarrow> (string \<times> int) list" where
  "flip_cases cases = fold (\<lambda>(k, v) m. dict_set v k m) cases []"

text \<open>\<open>[int(v['type'].replace('b','')) for v in seq]\<close>; a switch has no \<open>replace\<close>.\<close>

fun field_bits :: "seq_field list \<Rightarrow> int list result" where
  "field_bits [] = Inr []"
| "field_bits (v # rest) =
     ebind (case field_type v of
              TypeName t \<Rightarrow> py_int (str_replace ''b'' [] t)
            | TypeSwitch _ \<Rightarrow> Inl AttributeError) (\<lambda>n.
     ebind (field_bits rest) (\<lambda>ns. Inr (n # ns)))"

text \<open>\<open>self.definition[key[0]]['types'][key[1]]\<close> after \<open>key = key.split("::")\<close>\<close>

definition register_type :: "schema \<Rightarrow> string \<Rightarrow> type_def result" where
  "register_type defs key =
     (let parts = str_split ''::'' key in
      ebind (py_index parts 0) (\<lambda>ns.
      ebind (dict_get defs ns) (\<lambda>doc.
      ebind (py_index parts 1) (\<lambda>tn. dict_get doc tn))))"

definition get_register_length :: "schema \<Rightarrow> string \<Rightarrow> int result" where
  "get_register_length defs key =
     ebind (register_type defs key) (\<lambda>t.
     ebind (field_bits (seq t)) (\<lambda>ns. Inr (sum_list ns)))"

definition get_register_endian :: "schema \<Rightarrow> string \<Rightarrow> endian result" where
  "get_register_endian defs key =
     ebind (register_type defs key) (\<lambda>obj.
       case meta obj of
         None \<Rightarrow> Inr Big
       | Some m \<Rightarrow>
           (case map_of m ''endian'' of
              None \<Rightarrow> Inr Big
            | Some v \<Rightarrow> if v = ''le'' then Inr Little else Inr Big))"

text \<open>The comprehension that builds \<open>self.mapping\<close>, one item of the flipped table at a
  time; \<open>acc\<close> is the dictionary built so far.\<close>

fun build_mapping :: "schema \<Rightarrow> (string \<times> int) list \<Rightarrow> catalog \<Rightarrow> catalog result" where
  "build_mapping defs [] acc = Inr acc"
| "build_mapping defs ((k, v) # items) acc =
     ebind (get_register_length defs k) (\<lambda>bits.
     ebind (get_register_endian defs k) (\<lambda>endian.
       build_mapping defs items (dict_set (str_replace ''usb4715_'' [] k) (v, bits, endian) acc)))"

text \<open>The part of \<open>__init__\<close> that follows the loading of the files.\<close>

definition USBHub_init :: "schema \<Rightarrow> catalog result" where
  "USBHub_init defs =
     ebind (register_cases defs) (\<lambda>cases. build_mapping defs (flip_cases cases) [])"

section \<open>The register parser\<close>

text \<open>
  The module \<open>registers\<close>, whose \<open>parse\<close> decodes the stream, is not among the sources.
  The three definitions of this section follow the spec instead: the stream starts with
  a 2-byte big-endian address and a 1-byte length in bytes, followed by the value, most
  significant byte first; the decoder splits the bits of the body into the named fields
  of the register's type, in the declared order and widths, each an unsigned integer of
  its width, and fails with \<open>DecodeLengthMismatch\<close> when the byte count does not fit the
  width of the register. A 24-bit value arrives as a 4-byte quantity whose top three
  bytes are the value, so the body is the first \<open>len\<close> bytes after the header. A type is
  given by its fields, name and width, in order.
\<close>

text \<open>Modelled from the spec: the field split of \<open>registers.parse\<close> (module \<open>registers\<close>
  is missing). The fields of a value of \<open>k\<close> bits, from the most significant bit
  down.\<close>

fun field_values :: "(string \<times> nat) list \<Rightarrow> nat \<Rightarrow> int \<Rightarrow> (string \<times> int) list" where
  "field_values [] k v = []"
| "field_values ((name, w) # fs) k v =
     (name, take_bit w (drop_bit (k - w) v)) # field_values fs (k - w) v"

text \<open>Modelled from the spec: \<open>registers.parse(stream)[0]\<close> (module \<open>registers\<close> is
  missing), for a register whose type has the fields \<open>flds\<close>. The decoded object is
  allocated in the store.\<close>

definition registers_parse :: "(string \<times> nat) list \<Rightarrow> parser" where
  "registers_parse flds h stream =
     (case stream of
        a1 # a0 # n # rest \<Rightarrow>
          if length rest < unat n \<or> sum_list (map snd flds) \<noteq> 8 * unat n
          then Inl DecodeLengthMismatch
          else Inr (h @ [\<lparr>addr = int_from_bytes [a1, a0] Big,
                          len = int (unat n),
                          body = fold (\<lambda>(k, x) d. dict_set k x d)
                                   (field_values flds (8 * unat n)
                                      (int_from_bytes (take (unat n) rest) Big))
                                   []\<rparr>],
                    length h)
      | _ \<Rightarrow> Inl DecodeLengthMismatch)"

text \<open>Modelled from the spec: the value that the decoded fields of a register stand for
  (the spec's round trip recovers it; module \<open>registers\<close> is missing): the fields put
  side by side, first field in the most significant bits.\<close>

fun fields_value :: "(string \<times> nat) list \<Rightarrow> (string \<times> int) list \<Rightarrow> int \<Rightarrow> int" where
  "fields_value ((name, w) # fs) ((name', x) # xs) acc = fields_value fs xs (acc * 2 ^ w + x)"
| "fields_value fs xs acc = acc"

text \<open>A small schema on which the definitions can be run: a register of 12 bits and
  a little-endian one of 8 bits.\<close>

definition example_schema :: schema where
  "example_schema =
     [(''usb4715'', [(''register'',
         \<lparr>seq = [\<lparr>field_id = ''addr'', field_type = TypeName ''u2''\<rparr>,
                 \<lparr>field_id = ''len'', field_type = TypeName ''u1''\<rparr>,
                 \<lparr>field_id = ''body'',
                  field_type = TypeSwitch [(0x10, ''main::odd''), (0x3194, ''port::connection'')]\<rparr>],
          meta = None\<rparr>)]),
      (''main'', [(''odd'',
         \<lparr>seq = [\<lparr>field_id = ''value'', field_type = TypeName ''b12''\<rparr>], meta = None\<rparr>)]),
      (''port'', [(''connection'',
         \<lparr>seq = [\<lparr>field_id = ''reserved'', field_type = TypeName ''b4''\<rparr>,
                 \<lparr>field_id = ''port4'', field_type = TypeName ''b1''\<rparr>,
                 \<lparr>field_id = ''port3'', field_type = TypeName ''b1''\<rparr>,
                 \<lparr>field_id = ''port2'', field_type = TypeName ''b1''\<rparr>,
                 \<lparr>field_id = ''port1'', field_type = TypeName ''b1''\<rparr>],
          meta = Some [(''endian'', ''le'')]\<rparr>)])]"

text \<open>For stating what the loop does: the field whose value the loop writes to field
  \<open>k\<close>, read off \<open>PORT_MAP\<close> (entry \<open>i\<close> of the table is written from field
  \<open>port(i+1)\<close>).\<close>

definition port_source :: "string \<Rightarrow> string option" where
  "port_source k =
     (if k = ''port2'' then Some ''port1''
      else if k = ''port4'' then Some ''port2''
      else if k = ''port1'' then Some ''port3''
      else if k = ''port3'' then Some ''port4''
      else None)"

section \<open>Properties\<close>

lemma ebind_simps [simp]:
  "ebind (Inl e) f = Inl e"
  "ebind (Inr x) f = f x"
  by (simp_all add: ebind_def)

lemma py_index_in_range:
  "0 \<le> i \<Longrightarrow> i < int (length xs) \<Longrightarrow> py_index xs i = Inr (xs ! nat i)"
  by (simp add: py_index_def)

subsection \<open>Lookup by name\<close>

text \<open>
  Claim C7. \<open>find\<close> on a name that is not a key of the catalog raises the
  unknown-register-name error; on a name whose entry has a bit-width outside
  8, 16, 24, 32 it raises the error that reports the width; on a name whose entry has
  one of these widths it returns the entry's address, width and endianness.
\<close>

theorem find_reg_cases:
  "(map_of mapping name = None \<longrightarrow> find_reg mapping name = Inl (UnknownRegisterName name)) \<and>
   (\<forall>register bits endian. map_of mapping name = Some (register, bits, endian) \<longrightarrow>
      (bits \<notin> {8, 16, 24, 32} \<longrightarrow> find_reg mapping name = Inl (RegisterHasBits name bits)) \<and>
      (bits \<in> {8, 16, 24, 32} \<longrightarrow> find_reg mapping name = Inr (register, bits, endian)))"
  by (simp add: find_reg_def)

theorem find_reg_cases_witness:
  "find_reg [(''main::rev'', (0x10, 8, Big)), (''main::odd'', (0x11, 12, Little))] ''main::rev''
     = Inr (0x10, 8, Big) \<and>
   find_reg [(''main::rev'', (0x10, 8, Big)), (''main::odd'', (0x11, 12, Little))] ''main::odd''
     = Inl (RegisterHasBits ''main::odd'' 12) \<and>
   find_reg [(''main::rev'', (0x10, 8, Big)), (''main::odd'', (0x11, 12, Little))] ''main::none''
     = Inl (UnknownRegisterName ''main::none'')"
  using
    find_reg_cases [of "[(''main::rev'', (0x10, 8, Big)), (''main::odd'', (0x11, 12, Little))]"
      "''main::rev''"]
    find_reg_cases [of "[(''main::rev'', (0x10, 8, Big)), (''main::odd'', (0x11, 12, Little))]"
      "''main::odd''"]
    find_reg_cases [of "[(''main::rev'', (0x10, 8, Big)), (''main::odd'', (0x11, 12, Little))]"
      "''main::none''"]
  by simp

subsection \<open>Current limits stay inside the table\<close>

lemma current_map_lookup:
  "py_index UCS2113_CURRENT_MAP (v AND 7) = Inr (UCS2113_CURRENT_MAP ! nat (v AND 7))"
proof -
  have "v AND 7 \<le> 7" by (simp add: AND_upper2)
  then have "v AND 7 < int (length UCS2113_CURRENT_MAP)"
    by (simp add: UCS2113_CURRENT_MAP_def)
  then show ?thesis by (simp add: py_index_in_range)
qed

lemma current_map_member:
  "UCS2113_CURRENT_MAP ! nat (v AND 7) \<in> set UCS2113_CURRENT_MAP"
proof -
  have "v AND 7 \<le> 7" by (simp add: AND_upper2)
  moreover have "0 \<le> v AND 7" by simp
  moreover have "length UCS2113_CURRENT_MAP = 8"
    by (simp add: UCS2113_CURRENT_MAP_def)
  ultimately have "nat (v AND 7) < length UCS2113_CURRENT_MAP"
    by linarith
  then show ?thesis by (rule nth_mem)
qed

text \<open>
  Claim C10. Whatever first bytes \<open>v1\<close> and \<open>v2\<close> the two current-limit chips return,
  \<open>current_limits\<close> returns four values: the table entries at the indices
  \<open>v1 & 7\<close>, \<open>(v1 >> 3) & 7\<close>, \<open>v2 & 7\<close>, \<open>(v2 >> 3) & 7\<close>. Each index lies in 0..7, so
  no lookup raises and each value is an element of the table.
\<close>

theorem current_limits_in_table:
  assumes r1: "rd ADDR_USC12 UCS2113_CURRENT_LIMIT = Inr (v1 # rest1)"
    and r2: "rd ADDR_USC34 UCS2113_CURRENT_LIMIT = Inr (v2 # rest2)"
  shows "\<exists>out. current_limits rd = Inr out \<and> length out = 4 \<and>
           out = map (\<lambda>key. UCS2113_CURRENT_MAP ! nat key)
                   [v1 AND 7, drop_bit 3 v1 AND 7, v2 AND 7, drop_bit 3 v2 AND 7] \<and>
           (\<forall>key \<in> set [v1 AND 7, drop_bit 3 v1 AND 7, v2 AND 7, drop_bit 3 v2 AND 7].
              0 \<le> key \<and> key \<le> 7) \<and>
           (\<forall>y \<in> set out. y \<in> set UCS2113_CURRENT_MAP)"
proof -
  have c1: "current_limits_chip rd [] ADDR_USC12 = Inr [v1 AND 7, drop_bit 3 v1 AND 7]"
    by (simp add: current_limits_chip_def r1 py_index_def)
  have c2: "current_limits_chip rd [v1 AND 7, drop_bit 3 v1 AND 7] ADDR_USC34
            = Inr [v1 AND 7, drop_bit 3 v1 AND 7, v2 AND 7, drop_bit 3 v2 AND 7]"
    by (simp add: current_limits_chip_def r2 py_index_def)
  have res: "current_limits rd = Inr (map (\<lambda>key. UCS2113_CURRENT_MAP ! nat key)
                   [v1 AND 7, drop_bit 3 v1 AND 7, v2 AND 7, drop_bit 3 v2 AND 7])"
    by (simp add: current_limits_def c1 c2 current_map_lookup)
  have rng: "\<forall>key \<in> set [v1 AND 7, drop_bit 3 v1 AND 7, v2 AND 7, drop_bit 3 v2 AND 7].
              0 \<le> key \<and> key \<le> 7"
    by (simp add: AND_upper2)
  have mem: "\<forall>y \<in> set (map (\<lambda>key. UCS2113_CURRENT_MAP ! nat key)
                   [v1 AND 7, drop_bit 3 v1 AND 7, v2 AND 7, drop_bit 3 v2 AND 7]).
               y \<in> set UCS2113_CURRENT_MAP"
    by (simp add: current_map_member)
  from res rng mem show ?thesis by simp
qed

theorem current_limits_in_table_witness:
  "current_limits (\<lambda>a r. if a = ADDR_USC12 then Inr [0x2C] else Inr [0xFF])
     = Inr [1600, 2130, 3200, 3200]"
  using current_limits_in_table
    [of "\<lambda>a r. if a = ADDR_USC12 then Inr [0x2C] else Inr [0xFF]" "0x2C" "[]" "0xFF" "[]"]
  by (simp add: ADDR_USC12_def ADDR_USC34_def UCS2113_CURRENT_MAP_def)

subsection \<open>The visible-field filter\<close>

text \<open>
  Claim C4. The claim is that \<open>register_keys\<close> returns the sorted field names that start
  neither with \<open>reserved\<close> nor with \<open>_\<close>, and \<open>["a", "d"]\<close> on the body
  \<open>{a:1, reserved_b:2, _c:3, d:4}\<close>. The function keeps \<open>reserved_b\<close>: the bitwise
  complement of a \<open>bool\<close> is \<open>-1\<close> or \<open>-2\<close>, never zero, so the second test of the filter
  holds for every key.
\<close>

theorem register_keys_keeps_reserved:
  "register_keys [(''a'', 1), (''reserved_b'', 2), (''_c'', 3), (''d'', 4)] True
     = Inr [''a'', ''d'', ''reserved_b'']"
  by (simp add: register_keys_def keep_key_def startswith_def py_truthy_def py_invert_bool_def)

subsection \<open>The port remap\<close>

lemma remap_key_simps:
  "remap_key ''port1'' = Inr ''port2''"
  "remap_key ''port2'' = Inr ''port4''"
  "remap_key ''port3'' = Inr ''port1''"
  "remap_key ''port4'' = Inr ''port3''"
  by (simp_all add: remap_key_def str_replace_def startswith_def py_int_def py_strip_def
      is_space_def digit_val_def PORT_MAP_def py_index_def)

lemma map_of_dict_set: "map_of (dict_set k v d) = (map_of d)(k \<mapsto> v)"
  by (induction d) (auto simp: fun_eq_iff)

lemma keys_dict_set:
  "map fst (dict_set k v d) = (if k \<in> set (map fst d) then map fst d else map fst d @ [k])"
  by (induction d) simp_all

lemma distinct_dict_set: "distinct (map fst d) \<Longrightarrow> distinct (map fst (dict_set k v d))"
  by (simp add: keys_dict_set)

lemma remap_key_total:
  assumes "key \<in> set PORT_MAP"
  shows "\<exists>t. remap_key key = Inr t \<and> port_source t = Some key \<and>
             (\<forall>k. port_source k = Some key \<longrightarrow> k = t)"
proof -
  from assms consider "key = ''port1''" | "key = ''port2''" | "key = ''port3''" | "key = ''port4''"
    by (auto simp: PORT_MAP_def)
  then show ?thesis
    by cases (simp_all add: remap_key_simps port_source_def)
qed

lemma port_source_None: "k \<notin> set PORT_MAP \<Longrightarrow> port_source k = None"
  by (simp add: port_source_def PORT_MAP_def)

lemma port_source_in: "port_source k = Some s \<Longrightarrow> s \<in> set PORT_MAP"
  by (auto simp: port_source_def PORT_MAP_def split: if_splits)

lemma remap_loop_effect:
  assumes "distinct (map fst items)" and "p < length h"
  shows "\<exists>h'. remap_loop h p items = Inr h' \<and> length h' = length h \<and>
           (\<forall>q. q \<noteq> p \<longrightarrow> h' ! q = h ! q) \<and>
           addr (h' ! p) = addr (h ! p) \<and> len (h' ! p) = len (h ! p) \<and>
           (distinct (map fst (body (h ! p))) \<longrightarrow> distinct (map fst (body (h' ! p)))) \<and>
           (\<forall>k. map_of (body (h' ! p)) k =
              (case port_source k of
                 None \<Rightarrow> map_of (body (h ! p)) k
               | Some s \<Rightarrow> (case map_of items s of
                              None \<Rightarrow> map_of (body (h ! p)) k
                            | Some v \<Rightarrow> Some v)))"
  using assms
proof (induction items arbitrary: h)
  case Nil
  then show ?case by (simp split: option.splits)
next
  case (Cons item items)
  obtain key val where item: "item = (key, val)" by (cases item)
  from Cons.prems item have dist: "distinct (map fst items)" and fresh: "map_of items key = None"
    by (auto simp: map_of_eq_None_iff)
  show ?case
  proof (cases "key \<in> set PORT_MAP")
    case False
    from Cons.IH [OF dist Cons.prems(2)] obtain h' where
      h': "remap_loop h p items = Inr h'" "length h' = length h"
       "\<forall>q. q \<noteq> p \<longrightarrow> h' ! q = h ! q"
       "addr (h' ! p) = addr (h ! p)" "len (h' ! p) = len (h ! p)"
       "distinct (map fst (body (h ! p))) \<longrightarrow> distinct (map fst (body (h' ! p)))"
       "\<forall>k. map_of (body (h' ! p)) k =
              (case port_source k of
                 None \<Rightarrow> map_of (body (h ! p)) k
               | Some s \<Rightarrow> (case map_of items s of
                              None \<Rightarrow> map_of (body (h ! p)) k
                            | Some v \<Rightarrow> Some v))"
      by blast
    have neq: "\<And>k s. port_source k = Some s \<Longrightarrow> s \<noteq> key"
      using False port_source_in by blast
    have "\<forall>k. map_of (body (h' ! p)) k =
              (case port_source k of
                 None \<Rightarrow> map_of (body (h ! p)) k
               | Some s \<Rightarrow> (case map_of (item # items) s of
                              None \<Rightarrow> map_of (body (h ! p)) k
                            | Some v \<Rightarrow> Some v))"
      using h'(7) neq by (auto simp: item split: option.splits)
    with h' False show ?thesis by (simp add: item)
  next
    case True
    then obtain t where t: "remap_key key = Inr t" "port_source t = Some key"
        "\<forall>k. port_source k = Some key \<longrightarrow> k = t"
      using remap_key_total by blast
    let ?h1 = "h[p := (h ! p)\<lparr>body := dict_set t val (body (h ! p))\<rparr>]"
    have p1: "p < length ?h1" using Cons.prems(2) by simp
    from Cons.IH [OF dist p1] obtain h' where
      h': "remap_loop ?h1 p items = Inr h'" "length h' = length ?h1"
       "\<forall>q. q \<noteq> p \<longrightarrow> h' ! q = ?h1 ! q"
       "addr (h' ! p) = addr (?h1 ! p)" "len (h' ! p) = len (?h1 ! p)"
       "distinct (map fst (body (?h1 ! p))) \<longrightarrow> distinct (map fst (body (h' ! p)))"
       "\<forall>k. map_of (body (h' ! p)) k =
              (case port_source k of
                 None \<Rightarrow> map_of (body (?h1 ! p)) k
               | Some s \<Rightarrow> (case map_of items s of
                              None \<Rightarrow> map_of (body (?h1 ! p)) k
                            | Some v \<Rightarrow> Some v))"
      by blast
    have b1: "body (?h1 ! p) = dict_set t val (body (h ! p))"
      using Cons.prems(2) by simp
    have run: "remap_loop h p (item # items) = Inr h'"
      using True t(1) h'(1) by (simp add: item)
    have frame: "\<forall>q. q \<noteq> p \<longrightarrow> h' ! q = h ! q"
      using h'(3) by simp
    have flds: "addr (h' ! p) = addr (h ! p)" "len (h' ! p) = len (h ! p)"
      using h'(4,5) Cons.prems(2) by simp_all
    have dst: "distinct (map fst (body (h ! p))) \<longrightarrow> distinct (map fst (body (h' ! p)))"
      using h'(6) b1 by (simp add: distinct_dict_set)
    have look: "\<forall>k. map_of (body (h' ! p)) k =
              (case port_source k of
                 None \<Rightarrow> map_of (body (h ! p)) k
               | Some s \<Rightarrow> (case map_of (item # items) s of
                              None \<Rightarrow> map_of (body (h ! p)) k
                            | Some v \<Rightarrow> Some v))"
    proof
      fix k
      show "map_of (body (h' ! p)) k =
              (case port_source k of
                 None \<Rightarrow> map_of (body (h ! p)) k
               | Some s \<Rightarrow> (case map_of (item # items) s of
                              None \<Rightarrow> map_of (body (h ! p)) k
                            | Some v \<Rightarrow> Some v))"
      proof (cases "port_source k")
        case None
        then have "k \<noteq> t" using t(2) by auto
        with None h'(7) b1 show ?thesis by (simp add: map_of_dict_set)
      next
        case (Some s)
        show ?thesis
        proof (cases "s = key")
          case True
          with Some t(3) have "k = t" by simp
          with Some True h'(7) b1 fresh show ?thesis
            by (simp add: map_of_dict_set item split: option.splits)
        next
          case False
          with Some t(2) have "k \<noteq> t" by auto
          with Some False h'(7) b1 show ?thesis
            by (simp add: map_of_dict_set item split: option.splits)
        qed
      qed
    qed
    from run h'(2) frame flds dst look show ?thesis by simp
  qed
qed


lemma remap_loop_frame:
  "\<exists>h'. remap_loop h p items = Inr h' \<and> length h' = length h \<and>
        (\<forall>q. q \<noteq> p \<longrightarrow> h' ! q = h ! q)"
proof (induction items arbitrary: h)
  case Nil
  then show ?case by simp
next
  case (Cons item items)
  obtain key val where item: "item = (key, val)" by (cases item)
  show ?case
  proof (cases "key \<in> set PORT_MAP")
    case False
    with Cons.IH [of h] show ?thesis by (simp add: item)
  next
    case True
    then obtain t where t: "remap_key key = Inr t"
      using remap_key_total by blast
    let ?h1 = "h[p := (h ! p)\<lparr>body := dict_set t val (body (h ! p))\<rparr>]"
    from Cons.IH [of ?h1] obtain h' where
      h': "remap_loop ?h1 p items = Inr h'" "length h' = length ?h1"
        "\<forall>q. q \<noteq> p \<longrightarrow> h' ! q = ?h1 ! q"
      by blast
    have "remap_loop h p (item # items) = Inr h'"
      using True t h'(1) by (simp add: item)
    moreover have "\<forall>q. q \<noteq> p \<longrightarrow> h' ! q = h ! q"
      using h'(3) by simp
    ultimately show ?thesis using h'(2) by simp
  qed
qed

lemma remap_step_unlisted:
  "name \<notin> set REGISTER_NEEDS_PORT_REMAP \<Longrightarrow> remap_step h name p = Inr h"
  by (simp add: remap_step_def)

lemma remap_step_listed:
  "name \<in> set REGISTER_NEEDS_PORT_REMAP \<Longrightarrow> p < length h \<Longrightarrow>
   remap_step h name p = remap_loop (h @ [h ! p]) p (body (h ! p))"
  by (simp add: remap_step_def deepcopy_def)





lemma remap_step_frame:
  assumes p: "p < length h"
  shows "\<exists>h'. remap_step h name p = Inr h' \<and>
           (\<forall>q<length h. q \<noteq> p \<longrightarrow> h' ! q = h ! q) \<and>
           (name \<in> set REGISTER_NEEDS_PORT_REMAP \<longrightarrow>
              length h' = Suc (length h) \<and> h' ! length h = h ! p) \<and>
           (name \<notin> set REGISTER_NEEDS_PORT_REMAP \<longrightarrow> h' = h)"
proof (cases "name \<in> set REGISTER_NEEDS_PORT_REMAP")
  case False
  then show ?thesis by (simp add: remap_step_unlisted)
next
  case True
  from remap_loop_frame [of "h @ [h ! p]" p "body (h ! p)"] obtain h' where
    run: "remap_loop (h @ [h ! p]) p (body (h ! p)) = Inr h'"
    and n: "length h' = length (h @ [h ! p])"
    and fr: "\<forall>q. q \<noteq> p \<longrightarrow> h' ! q = (h @ [h ! p]) ! q"
    by blast
  have step: "remap_step h name p = Inr h'"
    using run True p by (simp add: remap_step_listed)
  have old: "\<forall>q<length h. q \<noteq> p \<longrightarrow> h' ! q = h ! q"
    using fr by (simp add: nth_append)
  have "length h \<noteq> p" using p by simp
  with fr have copy: "h' ! length h = h ! p" by simp
  from step old copy n True show ?thesis by simp
qed

lemma remap_loop_header:
  assumes "p < length h" and "remap_loop h p items = Inr h'"
  shows "addr (h' ! p) = addr (h ! p) \<and> len (h' ! p) = len (h ! p)"
  using assms
proof (induction items arbitrary: h)
  case Nil
  then show ?case by simp
next
  case (Cons item items)
  obtain key val where item: "item = (key, val)" by (cases item)
  show ?case
  proof (cases "key \<in> set PORT_MAP")
    case False
    with Cons item show ?thesis by simp
  next
    case True
    then obtain t where t: "remap_key key = Inr t"
      using remap_key_total by blast
    let ?h1 = "h[p := (h ! p)\<lparr>body := dict_set t val (body (h ! p))\<rparr>]"
    have p1: "p < length ?h1" using Cons.prems(1) by simp
    have run: "remap_loop ?h1 p items = Inr h'"
      using Cons.prems(2) True t by (simp add: item)
    from Cons.IH [OF p1 run] Cons.prems(1) show ?thesis by simp
  qed
qed

lemma remap_step_object:
  assumes listed: "name \<in> set REGISTER_NEEDS_PORT_REMAP"
    and p: "p < length h"
    and keys: "distinct (map fst (body (h ! p)))"
    and step: "remap_step h name p = Inr h'"
  shows "(\<forall>i<4. \<forall>v. map_of (body (h ! p)) ([''port1'', ''port2'', ''port3'', ''port4''] ! i) = Some v
                     \<longrightarrow> map_of (body (h' ! p)) (PORT_MAP ! i) = Some v) \<and>
         (\<forall>k. k \<notin> set PORT_MAP \<longrightarrow> map_of (body (h' ! p)) k = map_of (body (h ! p)) k)"
proof -
  let ?h1 = "h @ [h ! p]"
  have p1: "p < length ?h1" using p by simp
  have same: "?h1 ! p = h ! p" using p by (simp add: nth_append)
  from remap_loop_effect [OF keys p1] obtain h2 where
    run: "remap_loop ?h1 p (body (h ! p)) = Inr h2"
    and look: "\<forall>k. map_of (body (h2 ! p)) k =
              (case port_source k of
                 None \<Rightarrow> map_of (body (h ! p)) k
               | Some s \<Rightarrow> (case map_of (body (h ! p)) s of
                              None \<Rightarrow> map_of (body (h ! p)) k
                            | Some v \<Rightarrow> Some v))"
    unfolding same by blast
  have "remap_step h name p = Inr h2"
    using run listed p by (simp add: remap_step_listed)
  with step have eq: "h2 = h'" by simp
  have ports: "\<forall>i<4. \<forall>v. map_of (body (h ! p)) ([''port1'', ''port2'', ''port3'', ''port4''] ! i) = Some v
                     \<longrightarrow> map_of (body (h' ! p)) (PORT_MAP ! i) = Some v"
  proof (intro allI impI)
    fix i :: nat and v
    assume i: "i < 4"
      and v: "map_of (body (h ! p)) ([''port1'', ''port2'', ''port3'', ''port4''] ! i) = Some v"
    from i consider "i = 0" | "i = 1" | "i = 2" | "i = 3" by linarith
    then show "map_of (body (h' ! p)) (PORT_MAP ! i) = Some v"
      using v look eq by cases (simp_all add: PORT_MAP_def port_source_def)
  qed
  have others: "\<forall>k. k \<notin> set PORT_MAP \<longrightarrow> map_of (body (h' ! p)) k = map_of (body (h ! p)) k"
    using look eq by (simp add: port_source_None)
  from ports others show ?thesis by blast
qed

lemma remap_step_header:
  assumes p: "p < length h" and step: "remap_step h name p = Inr h'"
  shows "addr (h' ! p) = addr (h ! p) \<and> len (h' ! p) = len (h ! p)"
proof (cases "name \<in> set REGISTER_NEEDS_PORT_REMAP")
  case False
  with step show ?thesis by (simp add: remap_step_unlisted)
next
  case True
  with step p have run: "remap_loop (h @ [h ! p]) p (body (h ! p)) = Inr h'"
    by (simp add: remap_step_listed)
  have p1: "p < length (h @ [h ! p])" using p by simp
  from remap_loop_header [OF p1 run] p show ?thesis by (simp add: nth_append)
qed

text \<open>
  Claim C3, as the code has it. The remap assigns to the fields of the object it is
  given, in place: its address and length stay, and when its field names are distinct
  each of \<open>port1\<close>..\<open>port4\<close> present before the call has its pre-remap value under the
  name the wiring table gives it afterwards, the other fields keeping their values. The
  deep copy is the object the loop reads, and it is the copy that keeps the pre-remap
  fields (it is allocated at the end of the store). No other object changes. In
  \<open>parse_register\<close> the object remapped is the one the parser has just created from the
  byte stream: when the parser allocates its result and leaves the objects of the store
  as they are, every object that existed before the call is unchanged after it, and the
  object returned holds the remapped fields.
\<close>

theorem remap_updates_in_place:
  "(p < length h \<longrightarrow>
      (\<exists>h'. remap_step h name p = Inr h' \<and>
         (\<forall>q<length h. q \<noteq> p \<longrightarrow> h' ! q = h ! q) \<and>
         addr (h' ! p) = addr (h ! p) \<and> len (h' ! p) = len (h ! p) \<and>
         (name \<notin> set REGISTER_NEEDS_PORT_REMAP \<longrightarrow> h' = h) \<and>
         (name \<in> set REGISTER_NEEDS_PORT_REMAP \<longrightarrow>
            length h' = Suc (length h) \<and> h' ! length h = h ! p \<and>
            (distinct (map fst (body (h ! p))) \<longrightarrow>
               (\<forall>i<4. \<forall>v.
                  map_of (body (h ! p)) ([''port1'', ''port2'', ''port3'', ''port4''] ! i) = Some v
                  \<longrightarrow> map_of (body (h' ! p)) (PORT_MAP ! i) = Some v) \<and>
               (\<forall>k. k \<notin> set PORT_MAP \<longrightarrow>
                  map_of (body (h' ! p)) k = map_of (body (h ! p)) k))))) \<and>
   (parse h stream = Inr (h1, r) \<and> length h \<le> r \<and> r < length h1 \<and>
      (\<forall>q<length h. h1 ! q = h ! q) \<longrightarrow>
      (\<exists>h2. parse_register parse h name stream = Inr (h2, r) \<and>
         (\<forall>q<length h. h2 ! q = h ! q) \<and>
         (name \<in> set REGISTER_NEEDS_PORT_REMAP \<and> distinct (map fst (body (h1 ! r))) \<longrightarrow>
            (\<forall>i<4. \<forall>v.
               map_of (body (h1 ! r)) ([''port1'', ''port2'', ''port3'', ''port4''] ! i) = Some v
               \<longrightarrow> map_of (body (h2 ! r)) (PORT_MAP ! i) = Some v) \<and>
            (\<forall>k. k \<notin> set PORT_MAP \<longrightarrow>
               map_of (body (h2 ! r)) k = map_of (body (h1 ! r)) k))))"
proof (intro conjI impI)
  assume p: "p < length h"
  from remap_step_frame [OF p, of name] obtain h' where
    step: "remap_step h name p = Inr h'"
    and fr: "\<forall>q<length h. q \<noteq> p \<longrightarrow> h' ! q = h ! q"
    and li: "name \<in> set REGISTER_NEEDS_PORT_REMAP \<longrightarrow>
              length h' = Suc (length h) \<and> h' ! length h = h ! p"
    and un: "name \<notin> set REGISTER_NEEDS_PORT_REMAP \<longrightarrow> h' = h"
    by blast
  note hd = remap_step_header [OF p step]
  have ob: "name \<in> set REGISTER_NEEDS_PORT_REMAP \<longrightarrow>
            distinct (map fst (body (h ! p))) \<longrightarrow>
               (\<forall>i<4. \<forall>v.
                  map_of (body (h ! p)) ([''port1'', ''port2'', ''port3'', ''port4''] ! i) = Some v
                  \<longrightarrow> map_of (body (h' ! p)) (PORT_MAP ! i) = Some v) \<and>
               (\<forall>k. k \<notin> set PORT_MAP \<longrightarrow>
                  map_of (body (h' ! p)) k = map_of (body (h ! p)) k)"
    using remap_step_object [OF _ p _ step] by blast
  from step fr hd li un ob
  show "\<exists>h'. remap_step h name p = Inr h' \<and>
         (\<forall>q<length h. q \<noteq> p \<longrightarrow> h' ! q = h ! q) \<and>
         addr (h' ! p) = addr (h ! p) \<and> len (h' ! p) = len (h ! p) \<and>
         (name \<notin> set REGISTER_NEEDS_PORT_REMAP \<longrightarrow> h' = h) \<and>
         (name \<in> set REGISTER_NEEDS_PORT_REMAP \<longrightarrow>
            length h' = Suc (length h) \<and> h' ! length h = h ! p \<and>
            (distinct (map fst (body (h ! p))) \<longrightarrow>
               (\<forall>i<4. \<forall>v.
                  map_of (body (h ! p)) ([''port1'', ''port2'', ''port3'', ''port4''] ! i) = Some v
                  \<longrightarrow> map_of (body (h' ! p)) (PORT_MAP ! i) = Some v) \<and>
               (\<forall>k. k \<notin> set PORT_MAP \<longrightarrow>
                  map_of (body (h' ! p)) k = map_of (body (h ! p)) k)))"
    by blast
next
  assume a: "parse h stream = Inr (h1, r) \<and> length h \<le> r \<and> r < length h1 \<and>
      (\<forall>q<length h. h1 ! q = h ! q)"
  then have r: "r < length h1" by simp
  from remap_step_frame [OF r, of name] obtain h2 where
    step: "remap_step h1 name r = Inr h2"
    and fr: "\<forall>q<length h1. q \<noteq> r \<longrightarrow> h2 ! q = h1 ! q"
    by blast
  have run: "parse_register parse h name stream = Inr (h2, r)"
    using a step by (simp add: parse_register_def)
  have old: "\<forall>q<length h. h2 ! q = h ! q"
    using a fr by auto
  have ob: "name \<in> set REGISTER_NEEDS_PORT_REMAP \<and> distinct (map fst (body (h1 ! r))) \<longrightarrow>
            (\<forall>i<4. \<forall>v.
               map_of (body (h1 ! r)) ([''port1'', ''port2'', ''port3'', ''port4''] ! i) = Some v
               \<longrightarrow> map_of (body (h2 ! r)) (PORT_MAP ! i) = Some v) \<and>
            (\<forall>k. k \<notin> set PORT_MAP \<longrightarrow>
               map_of (body (h2 ! r)) k = map_of (body (h1 ! r)) k)"
    using remap_step_object [OF _ r _ step] by blast
  from run old ob
  show "\<exists>h2. parse_register parse h name stream = Inr (h2, r) \<and>
         (\<forall>q<length h. h2 ! q = h ! q) \<and>
         (name \<in> set REGISTER_NEEDS_PORT_REMAP \<and> distinct (map fst (body (h1 ! r))) \<longrightarrow>
            (\<forall>i<4. \<forall>v.
               map_of (body (h1 ! r)) ([''port1'', ''port2'', ''port3'', ''port4''] ! i) = Some v
               \<longrightarrow> map_of (body (h2 ! r)) (PORT_MAP ! i) = Some v) \<and>
            (\<forall>k. k \<notin> set PORT_MAP \<longrightarrow>
               map_of (body (h2 ! r)) k = map_of (body (h1 ! r)) k))"
    by blast
qed

text \<open>
  Claim C3 as stated fails: the object passed to the remap step (reference 0) has a new
  key \<open>port4\<close> and another value of \<open>port2\<close> after the call; the unchanged fields are
  those of the copy (reference 1).
\<close>

theorem remap_step_mutates_input_counterexample:
  "remap_step
     [\<lparr>addr = 0x3100, len = 1, body = [(''port1'', 0), (''port2'', 1)]\<rparr>]
     ''port::device_speed'' 0
   = Inr [\<lparr>addr = 0x3100, len = 1, body = [(''port1'', 0), (''port2'', 0), (''port4'', 1)]\<rparr>,
          \<lparr>addr = 0x3100, len = 1, body = [(''port1'', 0), (''port2'', 1)]\<rparr>] \<and>
   body \<lparr>addr = 0x3100, len = 1, body = [(''port1'', 0), (''port2'', 0), (''port4'', 1)]\<rparr>
     \<noteq> body \<lparr>addr = 0x3100, len = 1, body = [(''port1'', 0), (''port2'', 1::int)]\<rparr>"
  by (simp add: remap_step_def deepcopy_def REGISTER_NEEDS_PORT_REMAP_def PORT_MAP_def
      remap_key_simps)

theorem remap_updates_in_place_witness:
  "(\<exists>h'. remap_step [\<lparr>addr = 7, len = 1, body = [(''x'', 5)]\<rparr>,
                      \<lparr>addr = 0x3100, len = 1, body = [(''port1'', 0), (''port2'', 1)]\<rparr>]
            ''port::device_speed'' 1 = Inr h' \<and>
          h' ! 0 = \<lparr>addr = 7, len = 1, body = [(''x'', 5)]\<rparr> \<and>
          h' ! 2 = \<lparr>addr = 0x3100, len = 1, body = [(''port1'', 0), (''port2'', 1)]\<rparr> \<and>
          addr (h' ! 1) = 0x3100 \<and> len (h' ! 1) = 1 \<and>
          map_of (body (h' ! 1)) ''port2'' = Some 0 \<and>
          map_of (body (h' ! 1)) ''port4'' = Some 1) \<and>
   (\<exists>h2. parse_register
            (\<lambda>h s. Inr (h @ [\<lparr>addr = 0x3100, len = 1, body = [(''port1'', 0), (''port2'', 1)]\<rparr>],
                         length h))
            [\<lparr>addr = 7, len = 1, body = [(''x'', 5)]\<rparr>] ''port::device_speed'' [0x31, 0, 1, 4]
          = Inr (h2, 1) \<and>
          h2 ! 0 = \<lparr>addr = 7, len = 1, body = [(''x'', 5)]\<rparr> \<and>
          map_of (body (h2 ! 1)) ''port2'' = Some 0 \<and>
          map_of (body (h2 ! 1)) ''port4'' = Some 1)"
proof -
  let ?o = "\<lparr>addr = 7, len = 1, body = [(''x'', 5::int)]\<rparr>"
  let ?d = "\<lparr>addr = 0x3100, len = 1, body = [(''port1'', 0), (''port2'', 1::int)]\<rparr>"
  let ?parse = "\<lambda>(h::heap) (s::u8 list). (Inr (h @ [?d], length h) :: (heap \<times> nat) result)"
  let ?ports = "[''port1'', ''port2'', ''port3'', ''port4'']"
  note t1 = remap_updates_in_place [of 1 "[?o, ?d]" "''port::device_speed''", THEN conjunct1]
  note t2 = remap_updates_in_place [of _ "[?o]" "''port::device_speed''" ?parse
      "[0x31, 0, 1, 4]" "[?o, ?d]" 1, THEN conjunct2]
  have l: "''port::device_speed'' \<in> set REGISTER_NEEDS_PORT_REMAP"
    by (simp add: REGISTER_NEEDS_PORT_REMAP_def)
  have d: "distinct (map fst (body ([?o, ?d] ! 1)))" by simp
  from t1 l d obtain h' where
    s1: "remap_step [?o, ?d] ''port::device_speed'' 1 = Inr h'"
    and f1: "\<forall>q<length [?o, ?d]. q \<noteq> 1 \<longrightarrow> h' ! q = [?o, ?d] ! q"
    and c1: "h' ! length [?o, ?d] = [?o, ?d] ! 1"
    and a1: "addr (h' ! 1) = addr ([?o, ?d] ! 1)" "len (h' ! 1) = len ([?o, ?d] ! 1)"
    and m1: "\<forall>i<4. \<forall>v. map_of (body ([?o, ?d] ! 1)) (?ports ! i) = Some v
               \<longrightarrow> map_of (body (h' ! 1)) (PORT_MAP ! i) = Some v"
    by auto
  have u1: "map_of (body (h' ! 1)) ''port2'' = Some 0"
    using m1 [rule_format, of 0 0] by (simp add: PORT_MAP_def)
  have u2: "map_of (body (h' ! 1)) ''port4'' = Some 1"
    using m1 [rule_format, of 1 1] by (simp add: PORT_MAP_def)
  have first: "\<exists>h'. remap_step [?o, ?d] ''port::device_speed'' 1 = Inr h' \<and>
          h' ! 0 = ?o \<and> h' ! 2 = ?d \<and> addr (h' ! 1) = 0x3100 \<and> len (h' ! 1) = 1 \<and>
          map_of (body (h' ! 1)) ''port2'' = Some 0 \<and>
          map_of (body (h' ! 1)) ''port4'' = Some 1"
    using s1 f1 c1 a1 u1 u2 by (auto simp: numeral_2_eq_2)
  from t2 l d obtain h2 where
    s2: "parse_register ?parse [?o] ''port::device_speed'' [0x31, 0, 1, 4] = Inr (h2, 1)"
    and f2: "\<forall>q<length [?o]. h2 ! q = [?o] ! q"
    and m2: "\<forall>i<4. \<forall>v. map_of (body ([?o, ?d] ! 1)) (?ports ! i) = Some v
               \<longrightarrow> map_of (body (h2 ! 1)) (PORT_MAP ! i) = Some v"
    by auto
  have w1: "map_of (body (h2 ! 1)) ''port2'' = Some 0"
    using m2 [rule_format, of 0 0] by (simp add: PORT_MAP_def)
  have w2: "map_of (body (h2 ! 1)) ''port4'' = Some 1"
    using m2 [rule_format, of 1 1] by (simp add: PORT_MAP_def)
  have second: "\<exists>h2. parse_register ?parse [?o] ''port::device_speed'' [0x31, 0, 1, 4]
          = Inr (h2, 1) \<and> h2 ! 0 = ?o \<and>
          map_of (body (h2 ! 1)) ''port2'' = Some 0 \<and>
          map_of (body (h2 ! 1)) ''port4'' = Some 1"
    using s2 f2 w1 w2 by auto
  from first second show ?thesis by blast
qed

subsection \<open>The length check of \<open>register_read\<close>\<close>

lemma remap_step_total: "\<exists>h'. remap_step h name p = Inr h'"
proof (cases "name \<in> set REGISTER_NEEDS_PORT_REMAP")
  case False
  then show ?thesis by (simp add: remap_step_unlisted)
next
  case True
  from remap_loop_frame [of "h @ [h ! p]" p "body ((h @ [h ! p]) ! length h)"]
  show ?thesis using True by (auto simp: remap_step_def deepcopy_def)
qed

lemma parse_register_not_length_error:
  assumes "parse h stream \<noteq> Inl IncorrectDataLength"
  shows "parse_register parse h name stream \<noteq> Inl IncorrectDataLength"
proof (cases "parse h stream")
  case (Inl e)
  with assms show ?thesis by (simp add: parse_register_def)
next
  case (Inr r)
  obtain h1 p where r: "r = (h1, p)" by (cases r)
  from remap_step_total [of h1 name p] obtain h2 where "remap_step h1 name p = Inr h2" ..
  with Inr r show ?thesis by (simp add: parse_register_def)
qed

lemma pack_uint_not_length_error: "pack_uint n v \<noteq> Inl IncorrectDataLength"
  by (simp add: pack_uint_def)

lemma encode_stream_not_length_error: "encode_stream address bits v \<noteq> Inl IncorrectDataLength"
  by (auto simp: encode_stream_def struct_pack_HB_def pack_uint_def ebind_def
      split: option.splits sum.splits)

text \<open>
  Claim C8, as the code has it. \<open>register_read\<close> compares the number of bytes the
  transport returned with the length it asked for: \<open>bits / 8\<close> when the register is
  read by name, the caller's \<open>length\<close> when it is read by address. When they differ it
  raises the length error, whatever the parser would do; when they are equal it does not
  raise that error (given a parser that does not raise it either).
\<close>

theorem register_read_length_check:
  "(find_reg mapping name = Inr (address, bits, endian) \<and>
    ctrl ((address + REG_BASE_DFT) AND 0xFFFF) (drop_bit 16 (address + REG_BASE_DFT)) (bits div 8)
      = Inr data \<longrightarrow>
      (int (length data) \<noteq> bits div 8 \<longrightarrow>
         register_read mapping ctrl parse h (Some name) addr_arg length_arg
           = Inl IncorrectDataLength) \<and>
      (int (length data) = bits div 8 \<and> (\<forall>s. parse h s \<noteq> Inl IncorrectDataLength) \<longrightarrow>
         register_read mapping ctrl parse h (Some name) addr_arg length_arg
           \<noteq> Inl IncorrectDataLength)) \<and>
   (find_name mapping a = Inr name' \<and>
    ctrl (a AND 0xFFFF) (drop_bit 16 a) length_arg = Inr data' \<longrightarrow>
      (int (length data') \<noteq> length_arg \<longrightarrow>
         register_read mapping ctrl parse h None (Some a) length_arg = Inl IncorrectDataLength) \<and>
      (int (length data') = length_arg \<longrightarrow>
         register_read mapping ctrl parse h None (Some a) length_arg \<noteq> Inl IncorrectDataLength))"
proof (intro conjI impI)
  assume a: "find_reg mapping name = Inr (address, bits, endian) \<and>
    ctrl ((address + REG_BASE_DFT) AND 0xFFFF) (drop_bit 16 (address + REG_BASE_DFT)) (bits div 8)
      = Inr data"
    and "int (length data) \<noteq> bits div 8"
  then show "register_read mapping ctrl parse h (Some name) addr_arg length_arg
           = Inl IncorrectDataLength"
    by (auto simp: register_read_def Let_def)
next
  assume a: "find_reg mapping name = Inr (address, bits, endian) \<and>
    ctrl ((address + REG_BASE_DFT) AND 0xFFFF) (drop_bit 16 (address + REG_BASE_DFT)) (bits div 8)
      = Inr data"
    and b: "int (length data) = bits div 8 \<and> (\<forall>s. parse h s \<noteq> Inl IncorrectDataLength)"
  have rr: "register_read mapping ctrl parse h (Some name) addr_arg length_arg =
     ebind (encode_stream address bits (int_from_bytes data endian)) (\<lambda>stream.
       ebind (parse_register parse h name stream) (\<lambda>(h', parsed). Inr (h', rev data, parsed)))"
    using a b by (simp add: register_read_def Let_def)
  show "register_read mapping ctrl parse h (Some name) addr_arg length_arg
           \<noteq> Inl IncorrectDataLength"
  proof (cases "encode_stream address bits (int_from_bytes data endian)")
    case (Inl e)
    with encode_stream_not_length_error [of address bits "int_from_bytes data endian"]
    show ?thesis by (simp add: rr)
  next
    case (Inr stream)
    from b have "parse h stream \<noteq> Inl IncorrectDataLength" by simp
    then have "parse_register parse h name stream \<noteq> Inl IncorrectDataLength"
      by (rule parse_register_not_length_error)
    with Inr show ?thesis
      by (cases "parse_register parse h name stream") (auto simp: rr)
  qed
next
  assume "find_name mapping a = Inr name' \<and>
    ctrl (a AND 0xFFFF) (drop_bit 16 a) length_arg = Inr data'"
    and "int (length data') \<noteq> length_arg"
  then show "register_read mapping ctrl parse h None (Some a) length_arg = Inl IncorrectDataLength"
    by (auto simp: register_read_def)
next
  assume "find_name mapping a = Inr name' \<and>
    ctrl (a AND 0xFFFF) (drop_bit 16 a) length_arg = Inr data'"
    and "int (length data') = length_arg"
  then show "register_read mapping ctrl parse h None (Some a) length_arg \<noteq> Inl IncorrectDataLength"
    by (auto simp: register_read_def)
qed

text \<open>
  Claim C8 as stated fails for a read by address: a 16-bit register read with the default
  length 1 gets one byte, not the two of its width, and no length error is raised; the
  call stops on the unbound \<open>bits\<close>.
\<close>

theorem register_read_by_address_counterexample:
  "register_read [(''main::word'', (0x10, 16, Big))] (\<lambda>v i l. Inr [0xAB])
     (\<lambda>h s. Inl DecodeLengthMismatch) [] None (Some 0x10) 1 = Inl UnboundLocalError \<and>
   int (length [0xAB :: u8]) \<noteq> 16 div 8"
  by (simp add: register_read_def)


theorem register_read_length_check_witness:
  "register_read [(''main::word'', (0x10, 16, Big))] (\<lambda>v i l. Inr [0xAB])
     (\<lambda>h s. Inl DecodeLengthMismatch) [] (Some ''main::word'') None 1
     = Inl IncorrectDataLength \<and>
   register_read [(''main::word'', (0x10, 16, Big))] (\<lambda>v i l. Inr [0xAB, 0xCD])
     (\<lambda>h s. Inl DecodeLengthMismatch) [] (Some ''main::word'') None 1
     \<noteq> Inl IncorrectDataLength \<and>
   register_read [(''main::word'', (0x10, 16, Big))] (\<lambda>v i l. Inr [0xAB])
     (\<lambda>h s. Inl DecodeLengthMismatch) [] None (Some 0x10) 2
     = Inl IncorrectDataLength \<and>
   register_read [(''main::word'', (0x10, 16, Big))] (\<lambda>v i l. Inr [0xAB])
     (\<lambda>h s. Inl DecodeLengthMismatch) [] None (Some 0x10) 1
     \<noteq> Inl IncorrectDataLength"
proof -
  let ?m = "[(''main::word'', (0x10, 16, Big))] :: catalog"
  let ?c1 = "(\<lambda>v i l. Inr [0xAB]) :: ctrl_transfer"
  let ?c2 = "(\<lambda>v i l. Inr [0xAB, 0xCD]) :: ctrl_transfer"
  let ?p = "(\<lambda>h s. Inl DecodeLengthMismatch) :: parser"
  have f: "find_reg ?m ''main::word'' = Inr (0x10, 16, Big)"
    by (simp add: find_reg_def)
  have g: "find_name ?m 0x10 = Inr ''main::word''" by simp
  have a: "register_read ?m ?c1 ?p [] (Some ''main::word'') None 1 = Inl IncorrectDataLength"
    using f register_read_length_check [where mapping = ?m and name = "''main::word''"
        and address = "0x10" and bits = 16 and endian = Big and ctrl = ?c1 and data = "[0xAB]"
        and parse = ?p and h = "[]" and addr_arg = None and length_arg = 1,
        THEN conjunct1]
    by simp
  have b: "register_read ?m ?c2 ?p [] (Some ''main::word'') None 1 \<noteq> Inl IncorrectDataLength"
    using f register_read_length_check [where mapping = ?m and name = "''main::word''"
        and address = "0x10" and bits = 16 and endian = Big and ctrl = ?c2
        and data = "[0xAB, 0xCD]"
        and parse = ?p and h = "[]" and addr_arg = None and length_arg = 1,
        THEN conjunct1]
    by simp
  have c: "register_read ?m ?c1 ?p [] None (Some 0x10) 2 = Inl IncorrectDataLength"
    using g register_read_length_check [where mapping = ?m and a = "0x10"
        and name' = "''main::word''" and ctrl = ?c1 and data' = "[0xAB]"
        and parse = ?p and h = "[]" and length_arg = 2,
        THEN conjunct2]
    by simp
  have d: "register_read ?m ?c1 ?p [] None (Some 0x10) 1 \<noteq> Inl IncorrectDataLength"
    using g register_read_length_check [where mapping = ?m and a = "0x10"
        and name' = "''main::word''" and ctrl = ?c1 and data' = "[0xAB]"
        and parse = ?p and h = "[]" and length_arg = 1,
        THEN conjunct2]
    by simp
  from a b c d show ?thesis by blast
qed

subsection \<open>Port speeds\<close>

lemma remap_step_body:
  assumes listed: "name \<in> set REGISTER_NEEDS_PORT_REMAP"
    and p: "p < length h"
    and keys: "distinct (map fst (body (h ! p)))"
  shows "\<exists>h'. remap_step h name p = Inr h' \<and>
           distinct (map fst (body (h' ! p))) \<and>
           (\<forall>k. map_of (body (h' ! p)) k =
              (case port_source k of
                 None \<Rightarrow> map_of (body (h ! p)) k
               | Some s \<Rightarrow> (case map_of (body (h ! p)) s of
                              None \<Rightarrow> map_of (body (h ! p)) k
                            | Some v \<Rightarrow> Some v)))"
proof -
  let ?h1 = "h @ [h ! p]"
  have p1: "p < length ?h1" using p by simp
  have same: "?h1 ! p = h ! p" using p by (simp add: nth_append)
  from remap_loop_effect [OF keys p1] obtain h' where
    run: "remap_loop ?h1 p (body (h ! p)) = Inr h'"
    and dst: "distinct (map fst (body (?h1 ! p))) \<longrightarrow> distinct (map fst (body (h' ! p)))"
    and look: "\<forall>k. map_of (body (h' ! p)) k =
              (case port_source k of
                 None \<Rightarrow> map_of (body (?h1 ! p)) k
               | Some s \<Rightarrow> (case map_of (body (h ! p)) s of
                              None \<Rightarrow> map_of (body (?h1 ! p)) k
                            | Some v \<Rightarrow> Some v))"
    by blast
  have "remap_step h name p = Inr h'"
    using run listed p by (simp add: remap_step_listed)
  moreover have "distinct (map fst (body (h' ! p)))"
    using dst keys same by simp
  moreover have "\<forall>k. map_of (body (h' ! p)) k =
              (case port_source k of
                 None \<Rightarrow> map_of (body (h ! p)) k
               | Some s \<Rightarrow> (case map_of (body (h ! p)) s of
                              None \<Rightarrow> map_of (body (h ! p)) k
                            | Some v \<Rightarrow> Some v))"
    using look unfolding same .
  ultimately show ?thesis by blast
qed

lemma port_names_sorted: "sorted [''port1'', ''port2'', ''port3'', ''port4'']"
  by simp

lemma sort_port_names:
  assumes "distinct ks" and "set ks = {''port1'', ''port2'', ''port3'', ''port4''}"
  shows "sort ks = [''port1'', ''port2'', ''port3'', ''port4'']"
proof (rule sorted_distinct_set_unique)
  show "sorted (sort ks)" by simp
  show "distinct (sort ks)" using assms(1) by simp
  show "sorted [''port1'', ''port2'', ''port3'', ''port4'']" by (rule port_names_sorted)
  show "distinct [''port1'', ''port2'', ''port3'', ''port4'']" by simp
  show "set (sort ks) = set [''port1'', ''port2'', ''port3'', ''port4'']"
    using assms(2) by simp
qed

lemma filter_port_names:
  "filter_keys [''port1'', ''port2'', ''port3'', ''port4'']
     = Inr [''port1'', ''port2'', ''port3'', ''port4'']"
  by (simp add: keep_key_def py_truthy_def py_invert_bool_def)

lemma speed_name_lookup:
  "0 \<le> v \<Longrightarrow> v \<le> 3 \<Longrightarrow> py_index speed_names v = Inr (speed_names ! nat v)"
  by (simp add: py_index_def speed_names_def)


lemma remapped_ports:
  assumes keyset: "fst ` set b = {''port1'', ''port2'', ''port3'', ''port4''}"
    and vals: "map_of b ''port1'' = Some v1" "map_of b ''port2'' = Some v2"
      "map_of b ''port3'' = Some v3" "map_of b ''port4'' = Some v4"
    and look: "\<forall>k. map_of b' k =
              (case port_source k of
                 None \<Rightarrow> map_of b k
               | Some s \<Rightarrow> (case map_of b s of None \<Rightarrow> map_of b k | Some v \<Rightarrow> Some v))"
  shows "map_of b' ''port1'' = Some v3" "map_of b' ''port2'' = Some v1"
    "map_of b' ''port3'' = Some v4" "map_of b' ''port4'' = Some v2"
    "fst ` set b' = {''port1'', ''port2'', ''port3'', ''port4''}"
proof -
  show "map_of b' ''port1'' = Some v3" "map_of b' ''port2'' = Some v1"
    "map_of b' ''port3'' = Some v4" "map_of b' ''port4'' = Some v2"
    using vals by (simp_all add: look port_source_def)
  have none: "\<And>k. k \<notin> {''port1'', ''port2'', ''port3'', ''port4''} \<Longrightarrow> map_of b k = None"
    using keyset by (simp add: map_of_eq_None_iff)
  have "dom (map_of b') = {''port1'', ''port2'', ''port3'', ''port4''}"
  proof (intro set_eqI iffI)
    fix k assume "k \<in> dom (map_of b')"
    then have "map_of b' k \<noteq> None" by auto
    then show "k \<in> {''port1'', ''port2'', ''port3'', ''port4''}"
      using none [of k] by (auto simp: look port_source_def split: if_splits)
  next
    fix k assume "k \<in> {''port1'', ''port2'', ''port3'', ''port4''}"
    then show "k \<in> dom (map_of b')"
      using vals by (auto simp: look port_source_def)
  qed
  then show "fst ` set b' = {''port1'', ''port2'', ''port3'', ''port4''}"
    by (simp add: dom_map_of_conv_image_fst)
qed

text \<open>
  Claim C9, as the code has it. When the decoded \<open>port::device_speed\<close> register has
  exactly the fields \<open>port1\<close>..\<open>port4\<close> with codes \<open>v1\<close>..\<open>v4\<close> in 0..3,
  \<open>speeds\<close> returns the labels of the remapped codes: those of \<open>v3\<close>, \<open>v1\<close>, \<open>v4\<close>,
  \<open>v2\<close>, in this order.
\<close>

theorem speeds_after_remap:
  assumes reg: "find_reg mapping ''port::device_speed'' = Inr (address, bits, endian)"
    and rd: "ctrl ((address + REG_BASE_DFT) AND 0xFFFF) (drop_bit 16 (address + REG_BASE_DFT))
               (bits div 8) = Inr data"
    and n: "int (length data) = bits div 8"
    and enc: "encode_stream address bits (int_from_bytes data endian) = Inr stream"
    and prs: "parse h stream = Inr (h1, p)"
    and p: "p < length h1"
    and keys: "distinct (map fst (body (h1 ! p)))"
    and keyset: "fst ` set (body (h1 ! p)) = {''port1'', ''port2'', ''port3'', ''port4''}"
    and vals: "map_of (body (h1 ! p)) ''port1'' = Some v1"
      "map_of (body (h1 ! p)) ''port2'' = Some v2"
      "map_of (body (h1 ! p)) ''port3'' = Some v3"
      "map_of (body (h1 ! p)) ''port4'' = Some v4"
    and rng: "\<forall>v \<in> {v1, v2, v3, v4}. 0 \<le> v \<and> v \<le> 3"
  shows "\<exists>h2. speeds mapping ctrl parse h =
           Inr (h2, [speed_names ! nat v3, speed_names ! nat v1,
                     speed_names ! nat v4, speed_names ! nat v2])"
proof -
  have listed: "''port::device_speed'' \<in> set REGISTER_NEEDS_PORT_REMAP"
    by (simp add: REGISTER_NEEDS_PORT_REMAP_def)
  from remap_step_body [OF listed p keys] obtain h2 where
    step: "remap_step h1 ''port::device_speed'' p = Inr h2"
    and dst: "distinct (map fst (body (h2 ! p)))"
    and look: "\<forall>k. map_of (body (h2 ! p)) k =
              (case port_source k of
                 None \<Rightarrow> map_of (body (h1 ! p)) k
               | Some s \<Rightarrow> (case map_of (body (h1 ! p)) s of
                              None \<Rightarrow> map_of (body (h1 ! p)) k
                            | Some v \<Rightarrow> Some v))"
    by blast
  note m = remapped_ports [OF keyset vals look]
  have pr: "parse_register parse h ''port::device_speed'' stream = Inr (h2, p)"
    using prs step by (simp add: parse_register_def)
  have rr: "register_read mapping ctrl parse h (Some ''port::device_speed'') None 1
              = Inr (h2, rev data, p)"
    using reg rd n enc pr by (simp add: register_read_def Let_def)
  have "set (map fst (body (h2 ! p))) = {''port1'', ''port2'', ''port3'', ''port4''}"
    using m(5) by simp
  with dst have "sort (map fst (body (h2 ! p))) = [''port1'', ''port2'', ''port3'', ''port4'']"
    by (rule sort_port_names)
  then have ks: "register_keys (body (h2 ! p)) True = Inr [''port1'', ''port2'', ''port3'', ''port4'']"
    by (simp only: register_keys_def if_True filter_port_names)
  have g: "dict_get (body (h2 ! p)) ''port1'' = Inr v3"
    "dict_get (body (h2 ! p)) ''port2'' = Inr v1"
    "dict_get (body (h2 ! p)) ''port3'' = Inr v4"
    "dict_get (body (h2 ! p)) ''port4'' = Inr v2"
    using m(1-4) by (simp_all add: dict_get_def)
  have sl: "speeds_list (body (h2 ! p)) [''port1'', ''port2'', ''port3'', ''port4'']
          = Inr [speed_names ! nat v3, speed_names ! nat v1,
                 speed_names ! nat v4, speed_names ! nat v2]"
    using rng by (simp add: g speed_name_lookup)
  have "speeds mapping ctrl parse h =
           Inr (h2, [speed_names ! nat v3, speed_names ! nat v1,
                     speed_names ! nat v4, speed_names ! nat v2])"
    by (simp only: speeds_def rr ks sl ebind_simps prod.case)
  then show ?thesis ..
qed

text \<open>
  Claim C9 as stated fails: on the raw codes \<open>port1=0, port2=2, port3=3, port4=1\<close> the
  result is \<open>["high", "none", "low", "full"]\<close>, not \<open>["none", "full", "high", "low"]\<close>.
\<close>

theorem speeds_raw_codes_counterexample:
  "speeds [(''port::device_speed'', (0x3140, 8, Big))] (\<lambda>v i l. Inr [0x78])
     (\<lambda>h s. Inr (h @ [\<lparr>addr = 0x3140, len = 1,
                         body = [(''port1'', 0), (''port2'', 2), (''port3'', 3), (''port4'', 1)]\<rparr>],
                  length h))
     []
   = Inr ([\<lparr>addr = 0x3140, len = 1,
            body = [(''port1'', 3), (''port2'', 0), (''port3'', 1), (''port4'', 2)]\<rparr>,
           \<lparr>addr = 0x3140, len = 1,
            body = [(''port1'', 0), (''port2'', 2), (''port3'', 3), (''port4'', 1)]\<rparr>],
          [''high'', ''none'', ''low'', ''full'']) \<and>
   [''high'', ''none'', ''low'', ''full''] \<noteq> [''none'', ''full'', ''high'', ''low'']"
  by (simp add: speeds_def register_read_def find_reg_def REG_BASE_DFT_def Let_def
      encode_stream_def code_shift_def struct_pack_HB_def pack_uint_def bits_to_bytes_def
      int_from_bytes_def parse_register_def remap_step_def deepcopy_def
      REGISTER_NEEDS_PORT_REMAP_def PORT_MAP_def remap_key_simps
      register_keys_def keep_key_def py_truthy_def py_invert_bool_def startswith_def
      dict_get_def py_index_def speed_names_def)


lemma be_bytes_numeral:
  "be_bytes 1 v = [word_of_int v]"
  "be_bytes 2 v = [word_of_int (v div 256), word_of_int v]"
  "be_bytes 4 v = [word_of_int (v div 256 div 256 div 256), word_of_int (v div 256 div 256),
                   word_of_int (v div 256), word_of_int v]"
  by (simp_all add: eval_nat_numeral)

theorem speeds_after_remap_witness:
  "\<exists>h2. speeds [(''port::device_speed'', (0x3140, 8, Big))] (\<lambda>v i l. Inr [0xB1])
          (\<lambda>h s. Inr (h @ [\<lparr>addr = 0x3140, len = 1,
                              body = [(''port4'', 2), (''port3'', 0), (''port2'', 3), (''port1'', 1)]\<rparr>],
                       length h))
          []
        = Inr (h2, [''none'', ''low'', ''full'', ''high''])"
proof -
  let ?m = "[(''port::device_speed'', (0x3140, 8, Big))] :: catalog"
  let ?c = "(\<lambda>v i l. Inr [0xB1]) :: ctrl_transfer"
  let ?o = "\<lparr>addr = 0x3140, len = 1,
            body = [(''port4'', 2), (''port3'', 0), (''port2'', 3), (''port1'', 1::int)]\<rparr>"
  let ?p = "(\<lambda>h s. Inr (h @ [?o], length h)) :: parser"
  have reg: "find_reg ?m ''port::device_speed'' = Inr (0x3140, 8, Big)"
    by (simp add: find_reg_def)
  have rd: "?c ((0x3140 + REG_BASE_DFT) AND 0xFFFF) (drop_bit 16 (0x3140 + REG_BASE_DFT)) (8 div 8)
              = Inr [0xB1]"
    by simp
  have n: "int (length [0xB1 :: u8]) = 8 div 8" by simp
  have enc: "encode_stream 0x3140 8 (int_from_bytes [0xB1] Big) = Inr [0x31, 0x40, 1, 0xB1]"
    by (simp add: encode_stream_def code_shift_def struct_pack_HB_def pack_uint_def
        bits_to_bytes_def int_from_bytes_def be_bytes_numeral)
  have prs: "?p [] [0x31, 0x40, 1, 0xB1] = Inr ([?o], 0)" by simp
  have p: "0 < length [?o]" by simp
  have keys: "distinct (map fst (body ([?o] ! 0)))" by simp
  have keyset: "fst ` set (body ([?o] ! 0)) = {''port1'', ''port2'', ''port3'', ''port4''}"
    by auto
  have vals: "map_of (body ([?o] ! 0)) ''port1'' = Some 1"
    "map_of (body ([?o] ! 0)) ''port2'' = Some 3"
    "map_of (body ([?o] ! 0)) ''port3'' = Some 0"
    "map_of (body ([?o] ! 0)) ''port4'' = Some 2"
    by simp_all
  have rng: "\<forall>v \<in> {1, 3, 0, 2::int}. 0 \<le> v \<and> v \<le> 3" by simp
  note t = speeds_after_remap [where mapping = ?m and ctrl = ?c and parse = ?p and h = "[]"
      and address = "0x3140" and bits = 8 and endian = Big and data = "[0xB1]"
      and stream = "[0x31, 0x40, 1, 0xB1]" and ?h1.0 = "[?o]" and p = 0
      and ?v1.0 = 1 and ?v2.0 = 3 and ?v3.0 = 0 and ?v4.0 = 2]
  from t [OF reg rd n enc prs p keys keyset vals rng]
  show ?thesis by (simp add: speed_names_def)
qed

subsection \<open>The catalog\<close>

lemma dict_set_mem:
  "e \<in> set (dict_set k v d) \<Longrightarrow> e = (k, v) \<or> e \<in> set d"
  by (induction d) (auto split: if_splits)

lemma dict_set_proj_mem:
  assumes "x \<in> g ` set (dict_set k v d)"
  shows "x = g (k, v) \<or> x \<in> g ` set d"
proof -
  from assms obtain e where e: "e \<in> set (dict_set k v d)" "x = g e" by blast
  from dict_set_mem [OF e(1)] e(2) show ?thesis by blast
qed

lemma dict_set_proj_distinct:
  assumes "distinct (map g d)" and "g (k, v) \<notin> g ` set d"
    and same: "\<And>k'. g (k', v) = g (k, v)"
  shows "distinct (map g (dict_set k v d))"
  using assms(1,2)
proof (induction d)
  case Nil
  then show ?case by simp
next
  case (Cons e d)
  show ?case
  proof (cases "fst e = k")
    case True
    with Cons.prems show ?thesis by simp
  next
    case False
    have "g e \<notin> g ` set (dict_set k v d)"
    proof
      assume "g e \<in> g ` set (dict_set k v d)"
      then have "g e = g (k, v) \<or> g e \<in> g ` set d" by (rule dict_set_proj_mem)
      with Cons.prems show False by auto
    qed
    moreover have "distinct (map g (dict_set k v d))"
      using Cons.IH Cons.prems by simp
    ultimately show ?thesis using False by simp
  qed
qed

lemma fold_flip_distinct:
  assumes "distinct (map fst cases)" and "distinct (map snd acc)"
    and "set (map snd acc) \<inter> set (map fst cases) = {}"
  shows "distinct (map snd (fold (\<lambda>(k, v) m. dict_set v k m) cases acc))"
  using assms
proof (induction cases arbitrary: acc)
  case Nil
  then show ?case by simp
next
  case (Cons c cases)
  obtain k v where c: "c = (k, v)" by (cases c)
  have k: "snd (v, k) \<notin> snd ` set acc" using Cons.prems(3) c by auto
  have d1: "distinct (map snd (dict_set v k acc))"
    using Cons.prems(2) k by (rule dict_set_proj_distinct) simp
  have d2: "set (map snd (dict_set v k acc)) \<inter> set (map fst cases) = {}"
  proof (rule ccontr)
    assume "set (map snd (dict_set v k acc)) \<inter> set (map fst cases) \<noteq> {}"
    then obtain x where x: "x \<in> snd ` set (dict_set v k acc)" "x \<in> set (map fst cases)"
      by auto
    from dict_set_proj_mem [OF x(1)] have "x = k \<or> x \<in> snd ` set acc" by simp
    with x(2) Cons.prems(1,3) c show False by auto
  qed
  from Cons.prems(1) c have d0: "distinct (map fst cases)" by simp
  from Cons.IH [OF d0 d1 d2] show ?case by (simp add: c)
qed

lemma flip_cases_distinct:
  "distinct (map fst cases) \<Longrightarrow> distinct (map snd (flip_cases cases))"
  unfolding flip_cases_def by (rule fold_flip_distinct) simp_all

lemma build_mapping_distinct:
  assumes "build_mapping defs items acc = Inr m"
    and "distinct (map snd items)"
    and "distinct (map (\<lambda>e. fst (snd e)) acc)"
    and "(\<lambda>e. fst (snd e)) ` set acc \<inter> set (map snd items) = {}"
  shows "distinct (map (\<lambda>e. fst (snd e)) m)"
  using assms
proof (induction items arbitrary: acc)
  case Nil
  then show ?case by simp
next
  case (Cons item items)
  obtain k v where item: "item = (k, v)" by (cases item)
  from Cons.prems(1) item obtain bits endian where
    run: "build_mapping defs items (dict_set (str_replace ''usb4715_'' [] k) (v, bits, endian) acc)
            = Inr m"
    by (auto simp: ebind_def split: sum.splits)
  let ?acc = "dict_set (str_replace ''usb4715_'' [] k) (v, bits, endian) acc"
  let ?k = "str_replace ''usb4715_'' [] k"
  have v: "(\<lambda>e. fst (snd e)) (?k, (v, bits, endian)) \<notin> (\<lambda>e. fst (snd e)) ` set acc"
    using Cons.prems(4) item by auto
  have d1: "distinct (map (\<lambda>e. fst (snd e)) ?acc)"
    using Cons.prems(3) v by (rule dict_set_proj_distinct) simp
  have d2: "(\<lambda>e. fst (snd e)) ` set ?acc \<inter> set (map snd items) = {}"
  proof (rule ccontr)
    assume "(\<lambda>e. fst (snd e)) ` set ?acc \<inter> set (map snd items) \<noteq> {}"
    then obtain x where x: "x \<in> (\<lambda>e. fst (snd e)) ` set ?acc" "x \<in> set (map snd items)"
      by auto
    from dict_set_proj_mem [OF x(1)] have "x = v \<or> x \<in> (\<lambda>e. fst (snd e)) ` set acc" by simp
    with x(2) Cons.prems(2,4) item show False by auto
  qed
  from Cons.prems(2) item have d0: "distinct (map snd items)" by simp
  from Cons.IH [OF run d0 d1 d2] show ?case .
qed

lemma find_name_unique:
  assumes "distinct (map (\<lambda>e. fst (snd e)) m)" and "(n, v) \<in> set m"
  shows "find_name m (fst v) = Inr n"
  using assms
proof (induction m)
  case Nil
  then show ?case by simp
next
  case (Cons e m)
  obtain n' v' where e: "e = (n', v')" by (cases e)
  show ?case
  proof (cases "(n, v) = e")
    case True
    with e show ?thesis by simp
  next
    case False
    with Cons.prems have mem: "(n, v) \<in> set m" by simp
    then have "fst (snd (n, v)) \<in> (\<lambda>e. fst (snd e)) ` set m" by (rule imageI)
    then have "fst v \<in> (\<lambda>e. fst (snd e)) ` set m" by simp
    moreover from Cons.prems(1) e have "fst v' \<notin> (\<lambda>e. fst (snd e)) ` set m" by simp
    ultimately have "fst v' \<noteq> fst v" by metis
    moreover from Cons.prems(1) have "distinct (map (\<lambda>e. fst (snd e)) m)" by simp
    ultimately show ?thesis using Cons.IH mem e by simp
  qed
qed

lemma find_reg_member:
  "find_reg m n = Inr v \<Longrightarrow> (n, v) \<in> set m"
  by (auto simp: find_reg_def split: option.splits if_splits dest: map_of_SomeD)

text \<open>
  Claim C6. In the catalog that \<open>__init__\<close> builds from a table of cases with distinct
  addresses (the table is a dictionary), whenever \<open>find\<close> succeeds on a name, \<open>find_name\<close>
  on the address it returns gives that name back: no two entries of the built catalog
  share an address.
\<close>

theorem find_name_find_roundtrip:
  assumes cases: "register_cases defs = Inr cases"
    and keys: "distinct (map fst cases)"
    and built: "USBHub_init defs = Inr mapping"
    and found: "find_reg mapping n = Inr (address, bits, endian)"
  shows "find_name mapping address = Inr n"
proof -
  from built cases have b: "build_mapping defs (flip_cases cases) [] = Inr mapping"
    by (simp add: USBHub_init_def)
  have "distinct (map snd (flip_cases cases))"
    using keys by (rule flip_cases_distinct)
  with b have "distinct (map (\<lambda>e. fst (snd e)) mapping)"
    by (rule build_mapping_distinct) simp_all
  moreover from found have "(n, (address, bits, endian)) \<in> set mapping"
    by (rule find_reg_member)
  ultimately have "find_name mapping (fst (address, bits, endian)) = Inr n"
    by (rule find_name_unique)
  then show ?thesis by simp
qed





lemma example_schema_cases:
  "register_cases example_schema = Inr [(0x10, ''main::odd''), (0x3194, ''port::connection'')]"
  by (simp add: example_schema_def register_cases_def dict_get_def py_index_def)

lemma example_schema_built:
  "USBHub_init example_schema
     = Inr [(''main::odd'', (0x10, 12, Big)), (''port::connection'', (0x3194, 8, Little))]"
  by (simp add: example_schema_def USBHub_init_def register_cases_def dict_get_def py_index_def
      flip_cases_def get_register_length_def get_register_endian_def register_type_def
      str_split_def str_replace_def startswith_def py_int_def py_strip_def is_space_def
      digit_val_def Let_def)

theorem find_name_find_roundtrip_witness:
  "find_name [(''main::odd'', (0x10, 12, Big)), (''port::connection'', (0x3194, 8, Little))] 0x3194
     = Inr ''port::connection''"
proof -
  have keys: "distinct (map fst [(0x10::int, ''main::odd''), (0x3194, ''port::connection'')])"
    by simp
  have found: "find_reg [(''main::odd'', (0x10, 12, Big)), (''port::connection'', (0x3194, 8, Little))]
                 ''port::connection'' = Inr (0x3194, 8, Little)"
    by (simp add: find_reg_def)
  from find_name_find_roundtrip [OF example_schema_cases keys example_schema_built found]
  show ?thesis .
qed



subsection \<open>The codec\<close>

lemma length_be_bytes [simp]: "length (be_bytes n v) = n"
  by (induction n arbitrary: v) simp_all

lemma foldl_be_bytes:
  "0 \<le> v \<Longrightarrow> v < 2 ^ (8 * n) \<Longrightarrow>
   foldl (\<lambda>acc b. acc * 256 + uint b) 0 (be_bytes n v) = v"
proof (induction n arbitrary: v)
  case 0
  then show ?case by simp
next
  case (Suc n)
  have "v div 256 < 2 ^ (8 * n)"
  proof -
    have "v < 256 * 2 ^ (8 * n)" using Suc.prems(2) by (simp add: power_add mult.commute)
    then show ?thesis by (simp add: div_less_iff_less_mult zdiv_int mult.commute)
  qed
  moreover have "0 \<le> v div 256" using Suc.prems(1) by simp
  ultimately have ih: "foldl (\<lambda>acc b. acc * 256 + uint b) 0 (be_bytes n (v div 256)) = v div 256"
    by (rule Suc.IH [rotated])
  have "uint (word_of_int v :: u8) = v mod 256"
    by (simp add: uint_word_of_int take_bit_eq_mod)
  with ih show ?case by simp
qed

lemma int_from_bytes_be_bytes:
  "0 \<le> v \<Longrightarrow> v < 2 ^ (8 * n) \<Longrightarrow> int_from_bytes (be_bytes n v) Big = v"
  by (simp add: int_from_bytes_def foldl_be_bytes)


lemma dict_set_fresh: "k \<notin> fst ` set d \<Longrightarrow> dict_set k x d = d @ [(k, x)]"
  by (induction d) auto

lemma fold_dict_set_distinct:
  "distinct (map fst (acc @ xs)) \<Longrightarrow> fold (\<lambda>(k, x) d. dict_set k x d) xs acc = acc @ xs"
proof (induction xs arbitrary: acc)
  case Nil
  then show ?case by simp
next
  case (Cons e xs)
  obtain k x where e: "e = (k, x)" by (cases e)
  from Cons.prems e have "k \<notin> fst ` set acc" by auto
  then have step: "dict_set k x acc = acc @ [(k, x)]" by (rule dict_set_fresh)
  from Cons.prems e have "distinct (map fst ((acc @ [(k, x)]) @ xs))" by simp
  from Cons.IH [OF this] show ?case by (simp add: e step)
qed

lemma keys_field_values: "map fst (field_values fs k v) = map fst fs"
  by (induction fs k v rule: field_values.induct) simp_all

lemma body_of_fields:
  "distinct (map fst fs) \<Longrightarrow>
   fold (\<lambda>(k, x) d. dict_set k x d) (field_values fs k v) [] = field_values fs k v"
  using fold_dict_set_distinct [of "[]" "field_values fs k v"] by (simp add: keys_field_values)

lemma take_bit_split:
  "take_bit (w + s) (x::int) = take_bit w (drop_bit s x) * 2 ^ s + take_bit s x"
proof -
  have "x mod (2 ^ s * 2 ^ w) = 2 ^ s * (x div 2 ^ s mod 2 ^ w) + x mod 2 ^ s"
    by (rule zmod_zmult2_eq) simp
  then show ?thesis
    by (simp add: take_bit_eq_mod drop_bit_eq_div power_add mult.commute add.commute)
qed

lemma fields_value_field_values:
  "sum_list (map snd fs) \<le> k \<Longrightarrow>
   fields_value fs (field_values fs k v) acc =
     acc * 2 ^ sum_list (map snd fs)
       + take_bit (sum_list (map snd fs)) (drop_bit (k - sum_list (map snd fs)) v)"
proof (induction fs arbitrary: k acc)
  case Nil
  then show ?case by simp
next
  case (Cons f fs)
  obtain name w where f: "f = (name, w)" by (cases f)
  let ?s = "sum_list (map snd fs)"
  from Cons.prems f have le: "?s \<le> k - w" and wk: "w + ?s \<le> k" by simp_all
  have "?s + (k - (w + ?s)) = k - w" using wk by simp
  then have dd: "drop_bit ?s (drop_bit (k - (w + ?s)) v) = drop_bit (k - w) v"
    by simp
  have kk: "k - w - ?s = k - (w + ?s)" by simp
  have "fields_value (f # fs) (field_values (f # fs) k v) acc =
          fields_value fs (field_values fs (k - w) v) (acc * 2 ^ w + take_bit w (drop_bit (k - w) v))"
    by (simp add: f)
  also have "\<dots> = (acc * 2 ^ w + take_bit w (drop_bit (k - w) v)) * 2 ^ ?s
                   + take_bit ?s (drop_bit (k - w - ?s) v)"
    by (rule Cons.IH [OF le])
  also have "\<dots> = acc * 2 ^ (w + ?s)
                   + (take_bit w (drop_bit (k - w) v) * 2 ^ ?s
                      + take_bit ?s (drop_bit (k - (w + ?s)) v))"
    by (simp add: kk power_add algebra_simps)
  also have "\<dots> = acc * 2 ^ (w + ?s)
                   + (take_bit w (drop_bit ?s (drop_bit (k - (w + ?s)) v)) * 2 ^ ?s
                      + take_bit ?s (drop_bit (k - (w + ?s)) v))"
    by (simp only: dd)
  also have "\<dots> = acc * 2 ^ (w + ?s) + take_bit (w + ?s) (drop_bit (k - (w + ?s)) v)"
    by (simp only: take_bit_split)
  finally show ?case by (simp add: f)
qed

lemma fields_value_recovers:
  assumes "sum_list (map snd fs) = k" and "0 \<le> v" and "v < 2 ^ k"
  shows "fields_value fs (field_values fs k v) 0 = v"
proof -
  have "fields_value fs (field_values fs k v) 0 = take_bit k v"
    using fields_value_field_values [of fs k v 0] assms(1) by simp
  also have "\<dots> = v" using assms(2,3) by (simp add: take_bit_int_eq_self)
  finally show ?thesis .
qed


lemma be_bytes_shifted: "be_bytes (Suc n) (push_bit 8 v) = be_bytes n v @ [0]"
proof -
  have "(2::int) ^ LENGTH(8) dvd v * 256" by simp
  then have "(word_of_int (v * 256) :: u8) = 0"
    by (simp only: word_of_int_eq_0_iff)
  then show ?thesis by (simp add: push_bit_eq_mult)
qed

lemma registers_parse_stream:
  assumes a: "0 \<le> address" "address < 2 ^ 16"
    and n: "n < 256"
    and v: "0 \<le> v" "v < 2 ^ (8 * n)"
    and fs: "sum_list (map snd flds) = 8 * n" "distinct (map fst flds)"
  shows "registers_parse flds h (be_bytes 2 address @ [of_nat n] @ be_bytes n v @ extra)
           = Inr (h @ [\<lparr>addr = address, len = int n, body = field_values flds (8 * n) v\<rparr>],
                  length h)"
proof -
  have un: "unat (of_nat n :: u8) = n"
    using n by (simp add: unat_of_nat)
  have ad: "int_from_bytes [word_of_int (address div 256), word_of_int address] Big = address"
    using int_from_bytes_be_bytes [of address 2] a by (simp add: be_bytes_numeral)
  have va: "int_from_bytes (be_bytes n v) Big = v"
    using v by (rule int_from_bytes_be_bytes)
  have bd: "fold (\<lambda>(k, x) d. dict_set k x d) (field_values flds (8 * n) v) []
              = field_values flds (8 * n) v"
    using fs(2) by (rule body_of_fields)
  show ?thesis
    by (simp add: registers_parse_def be_bytes_numeral un ad va bd fs(1))
qed

lemma registers_parse_encoded:
  assumes w: "bits \<in> {8, 16, 24, 32}"
    and a: "0 \<le> address" "address < 2 ^ 16"
    and v: "0 \<le> v" "v < 2 ^ nat bits"
    and fs: "int (sum_list (map snd flds)) = bits" "distinct (map fst flds)"
  shows "\<exists>stream. encode_stream address bits v = Inr stream \<and>
           stream = be_bytes 2 address @ [word_of_int (bits div 8)] @
                      (if bits = 24 then be_bytes 4 (push_bit 8 v)
                       else be_bytes (nat (bits div 8)) v) \<and>
           registers_parse flds h stream =
             Inr (h @ [\<lparr>addr = address, len = bits div 8,
                        body = field_values flds (nat bits) v\<rparr>], length h) \<and>
           fields_value flds (field_values flds (nat bits) v) 0 = v"
proof -
  have sum: "sum_list (map snd flds) = nat bits" using fs(1) by simp
  have join: "fields_value flds (field_values flds (nat bits) v) 0 = v"
    using sum v by (rule fields_value_recovers)
  from w consider "bits = 8" | "bits = 16" | "bits = 24" | "bits = 32" by auto
  then show ?thesis
  proof cases
    case 1
    have enc: "encode_stream address bits v = Inr (be_bytes 2 address @ [1] @ be_bytes 1 v)"
      using a v 1 by (simp add: encode_stream_def code_shift_def struct_pack_HB_def pack_uint_def
          bits_to_bytes_def be_bytes_numeral)
    have "registers_parse flds h (be_bytes 2 address @ [of_nat 1] @ be_bytes 1 v @ [])
           = Inr (h @ [\<lparr>addr = address, len = int 1, body = field_values flds (8 * 1) v\<rparr>],
                  length h)"
      using a v sum 1 fs(2) by (intro registers_parse_stream) simp_all
    with enc join 1 show ?thesis by simp
  next
    case 2
    have enc: "encode_stream address bits v = Inr (be_bytes 2 address @ [2] @ be_bytes 2 v)"
      using a v 2 by (simp add: encode_stream_def code_shift_def struct_pack_HB_def pack_uint_def
          bits_to_bytes_def be_bytes_numeral)
    have "registers_parse flds h (be_bytes 2 address @ [of_nat 2] @ be_bytes 2 v @ [])
           = Inr (h @ [\<lparr>addr = address, len = int 2, body = field_values flds (8 * 2) v\<rparr>],
                  length h)"
      using a v sum 2 fs(2) by (intro registers_parse_stream) simp_all
    with enc join 2 show ?thesis by simp
  next
    case 3
    have sh: "push_bit 8 v < 2 ^ 32" "0 \<le> push_bit 8 v"
      using v 3 by (simp_all add: push_bit_eq_mult)
    have b4: "be_bytes 4 (push_bit 8 v) = be_bytes 3 v @ [0]"
      using be_bytes_shifted [of 3 v] by (simp add: eval_nat_numeral)
    have enc: "encode_stream address bits v
                 = Inr (be_bytes 2 address @ [3] @ be_bytes 4 (push_bit 8 v))"
      using a sh 3 by (simp add: encode_stream_def code_shift_def struct_pack_HB_def pack_uint_def
          bits_to_bytes_def)
    have "registers_parse flds h (be_bytes 2 address @ [of_nat 3] @ be_bytes 3 v @ [0])
           = Inr (h @ [\<lparr>addr = address, len = int 3, body = field_values flds (8 * 3) v\<rparr>],
                  length h)"
      using a v sum 3 fs(2) by (intro registers_parse_stream) simp_all
    with enc join 3 b4 show ?thesis by simp
  next
    case 4
    have enc: "encode_stream address bits v = Inr (be_bytes 2 address @ [4] @ be_bytes 4 v)"
      using a v 4 by (simp add: encode_stream_def code_shift_def struct_pack_HB_def pack_uint_def
          bits_to_bytes_def)
    have "registers_parse flds h (be_bytes 2 address @ [of_nat 4] @ be_bytes 4 v @ [])
           = Inr (h @ [\<lparr>addr = address, len = int 4, body = field_values flds (8 * 4) v\<rparr>],
                  length h)"
      using a v sum 4 fs(2) by (intro registers_parse_stream) simp_all
    with enc join 4 show ?thesis by simp
  qed
qed

lemma remap_loop_no_ports:
  "set (map fst items) \<inter> set PORT_MAP = {} \<Longrightarrow> remap_loop h p items = Inr h"
  by (induction items) auto

text \<open>
  Claim C1, as the code has it. For a width of 8, 16, 24 or 32 bits, a value \<open>v\<close> that
  fits the width and an address that fits 16 bits, the encode step of \<open>register_read\<close>
  gives the stream of the big-endian address, the length in bytes and the value: \<open>v\<close>
  itself in 1, 2 or 4 bytes for 8, 16 and 32 bits, \<open>v\<close> shifted left by 8 bits in 4 bytes
  for 24 bits. \<open>parse_register\<close>, with the parser given a type whose field widths add up
  to the width, decodes this stream to the address, the length and the fields of \<open>v\<close>,
  which put side by side are \<open>v\<close> again, when the register is not on the remap list or
  its type has no field named in the wiring table. For a register on the remap list the
  address and the length are recovered, the fields not named in the wiring table are
  those of \<open>v\<close>, and each of the fields \<open>port1\<close>..\<open>port4\<close> of \<open>v\<close> is found under the name
  the wiring table gives it.
\<close>

theorem decode_encode_through_remap:
  assumes w: "bits \<in> {8, 16, 24, 32}"
    and a: "0 \<le> address" "address < 2 ^ 16"
    and v: "0 \<le> v" "v < 2 ^ nat bits"
    and fs: "int (sum_list (map snd flds)) = bits" "distinct (map fst flds)"
  shows "\<exists>stream. encode_stream address bits v = Inr stream \<and>
           stream = be_bytes 2 address @ [word_of_int (bits div 8)] @
                      (if bits = 24 then be_bytes 4 (push_bit 8 v)
                       else be_bytes (nat (bits div 8)) v) \<and>
           (name \<notin> set REGISTER_NEEDS_PORT_REMAP \<or> set (map fst flds) \<inter> set PORT_MAP = {} \<longrightarrow>
              (\<exists>h'. parse_register (registers_parse flds) h name stream = Inr (h', length h) \<and>
                 h' ! length h = \<lparr>addr = address, len = bits div 8,
                                   body = field_values flds (nat bits) v\<rparr> \<and>
                 fields_value flds (body (h' ! length h)) 0 = v)) \<and>
           (name \<in> set REGISTER_NEEDS_PORT_REMAP \<longrightarrow>
              (\<exists>h'. parse_register (registers_parse flds) h name stream = Inr (h', length h) \<and>
                 addr (h' ! length h) = address \<and> len (h' ! length h) = bits div 8 \<and>
                 (\<forall>i<4. \<forall>x.
                    map_of (field_values flds (nat bits) v)
                      ([''port1'', ''port2'', ''port3'', ''port4''] ! i) = Some x
                    \<longrightarrow> map_of (body (h' ! length h)) (PORT_MAP ! i) = Some x) \<and>
                 (\<forall>k. k \<notin> set PORT_MAP \<longrightarrow>
                    map_of (body (h' ! length h)) k
                      = map_of (field_values flds (nat bits) v) k)))"
proof -
  let ?fv = "field_values flds (nat bits) v"
  let ?obj = "\<lparr>addr = address, len = bits div 8, body = ?fv\<rparr>"
  let ?h1 = "h @ [?obj]"
  from registers_parse_encoded [OF w a v fs, of h] obtain stream where
    enc: "encode_stream address bits v = Inr stream"
    and st: "stream = be_bytes 2 address @ [word_of_int (bits div 8)] @
                      (if bits = 24 then be_bytes 4 (push_bit 8 v)
                       else be_bytes (nat (bits div 8)) v)"
    and prs: "registers_parse flds h stream = Inr (?h1, length h)"
    and join: "fields_value flds ?fv 0 = v"
    by blast
  have p: "length h < length ?h1" by simp
  have at: "?h1 ! length h = ?obj" by simp
  have keys: "distinct (map fst (body (?h1 ! length h)))"
    using fs(2) by (simp add: keys_field_values)
  have plain: "name \<notin> set REGISTER_NEEDS_PORT_REMAP \<or> set (map fst flds) \<inter> set PORT_MAP = {} \<longrightarrow>
              (\<exists>h'. parse_register (registers_parse flds) h name stream = Inr (h', length h) \<and>
                 h' ! length h = ?obj \<and> fields_value flds (body (h' ! length h)) 0 = v)"
  proof
    assume c: "name \<notin> set REGISTER_NEEDS_PORT_REMAP \<or> set (map fst flds) \<inter> set PORT_MAP = {}"
    have "\<exists>h'. remap_step ?h1 name (length h) = Inr h' \<and> h' ! length h = ?obj"
    proof (cases "name \<in> set REGISTER_NEEDS_PORT_REMAP")
      case False
      then show ?thesis by (simp add: remap_step_unlisted)
    next
      case True
      with c have "set (map fst ?fv) \<inter> set PORT_MAP = {}"
        by (simp add: keys_field_values)
      then have "remap_loop (?h1 @ [?h1 ! length h]) (length h) ?fv = Inr (?h1 @ [?h1 ! length h])"
        by (rule remap_loop_no_ports)
      moreover have "remap_step ?h1 name (length h)
                       = remap_loop (?h1 @ [?h1 ! length h]) (length h) (body (?h1 ! length h))"
        using True p by (rule remap_step_listed)
      ultimately have "remap_step ?h1 name (length h) = Inr (?h1 @ [?h1 ! length h])"
        by simp
      then show ?thesis by (simp add: nth_append)
    qed
    then obtain h' where "remap_step ?h1 name (length h) = Inr h'" "h' ! length h = ?obj"
      by blast
    with prs join show "\<exists>h'. parse_register (registers_parse flds) h name stream = Inr (h', length h) \<and>
                 h' ! length h = ?obj \<and> fields_value flds (body (h' ! length h)) 0 = v"
      by (simp add: parse_register_def)
  qed
  have listed: "name \<in> set REGISTER_NEEDS_PORT_REMAP \<longrightarrow>
              (\<exists>h'. parse_register (registers_parse flds) h name stream = Inr (h', length h) \<and>
                 addr (h' ! length h) = address \<and> len (h' ! length h) = bits div 8 \<and>
                 (\<forall>i<4. \<forall>x.
                    map_of ?fv ([''port1'', ''port2'', ''port3'', ''port4''] ! i) = Some x
                    \<longrightarrow> map_of (body (h' ! length h)) (PORT_MAP ! i) = Some x) \<and>
                 (\<forall>k. k \<notin> set PORT_MAP \<longrightarrow>
                    map_of (body (h' ! length h)) k = map_of ?fv k))"
  proof
    assume l: "name \<in> set REGISTER_NEEDS_PORT_REMAP"
    from remap_step_total [of ?h1 name "length h"] obtain h' where
      step: "remap_step ?h1 name (length h) = Inr h'" ..
    have run: "parse_register (registers_parse flds) h name stream = Inr (h', length h)"
      using prs step by (simp add: parse_register_def)
    from remap_step_header [OF p step] have hd:
      "addr (h' ! length h) = address" "len (h' ! length h) = bits div 8"
      by simp_all
    from remap_step_object [OF l p keys step] have ob:
      "(\<forall>i<4. \<forall>x.
          map_of ?fv ([''port1'', ''port2'', ''port3'', ''port4''] ! i) = Some x
          \<longrightarrow> map_of (body (h' ! length h)) (PORT_MAP ! i) = Some x) \<and>
       (\<forall>k. k \<notin> set PORT_MAP \<longrightarrow> map_of (body (h' ! length h)) k = map_of ?fv k)"
      by simp
    from run hd ob show "\<exists>h'. parse_register (registers_parse flds) h name stream = Inr (h', length h) \<and>
                 addr (h' ! length h) = address \<and> len (h' ! length h) = bits div 8 \<and>
                 (\<forall>i<4. \<forall>x.
                    map_of ?fv ([''port1'', ''port2'', ''port3'', ''port4''] ! i) = Some x
                    \<longrightarrow> map_of (body (h' ! length h)) (PORT_MAP ! i) = Some x) \<and>
                 (\<forall>k. k \<notin> set PORT_MAP \<longrightarrow>
                    map_of (body (h' ! length h)) k = map_of ?fv k)"
      by blast
  qed
  from enc st plain listed show ?thesis by blast
qed

text \<open>
  Claim C1 as stated fails for a register on the remap list: for \<open>port::device_speed\<close>
  with four 2-bit port fields the value \<open>0x78\<close> is encoded and decoded to the fields
  \<open>port4=2, port3=1, port2=0, port1=3\<close>, which stand for \<open>0x93\<close>; the fields of \<open>0x78\<close>
  are those of the copy that the remap read.
\<close>

theorem decode_encode_port_fields_counterexample:
  "encode_stream 0x3140 8 0x78 = Inr [0x31, 0x40, 1, 0x78] \<and>
   parse_register
     (registers_parse [(''port4'', 2), (''port3'', 2), (''port2'', 2), (''port1'', 2)]) []
     ''port::device_speed'' [0x31, 0x40, 1, 0x78]
   = Inr ([\<lparr>addr = 0x3140, len = 1,
            body = [(''port4'', 2), (''port3'', 1), (''port2'', 0), (''port1'', 3)]\<rparr>,
           \<lparr>addr = 0x3140, len = 1,
            body = [(''port4'', 1), (''port3'', 3), (''port2'', 2), (''port1'', 0)]\<rparr>], 0) \<and>
   fields_value [(''port4'', 2), (''port3'', 2), (''port2'', 2), (''port1'', 2)]
     [(''port4'', 2), (''port3'', 1), (''port2'', 0), (''port1'', 3)] 0 = 0x93 \<and>
   (0x93::int) \<noteq> 0x78"
  by (simp add: encode_stream_def code_shift_def struct_pack_HB_def pack_uint_def
      bits_to_bytes_def be_bytes_numeral parse_register_def registers_parse_def
      int_from_bytes_def take_bit_eq_mod drop_bit_eq_div remap_step_def deepcopy_def
      REGISTER_NEEDS_PORT_REMAP_def PORT_MAP_def remap_key_simps)

theorem decode_encode_through_remap_witness:
  "encode_stream 0x3194 24 0xABCDEF = Inr [0x31, 0x94, 3, 0xAB, 0xCD, 0xEF, 0] \<and>
   (\<exists>h'. parse_register (registers_parse [(''hi'', 4), (''mid'', 12), (''lo'', 8)]) []
            ''main::word'' [0x31, 0x94, 3, 0xAB, 0xCD, 0xEF, 0] = Inr (h', 0) \<and>
          h' ! 0 = \<lparr>addr = 0x3194, len = 3,
                     body = [(''hi'', 0xA), (''mid'', 0xBCD), (''lo'', 0xEF)]\<rparr> \<and>
          fields_value [(''hi'', 4), (''mid'', 12), (''lo'', 8)] (body (h' ! 0)) 0 = 0xABCDEF) \<and>
   encode_stream 0x3140 8 0x78 = Inr [0x31, 0x40, 1, 0x78] \<and>
   (\<exists>h'. parse_register
            (registers_parse [(''port4'', 2), (''port3'', 2), (''port2'', 2), (''port1'', 2)]) []
            ''port::device_speed'' [0x31, 0x40, 1, 0x78] = Inr (h', 0) \<and>
          addr (h' ! 0) = 0x3140 \<and> len (h' ! 0) = 1 \<and>
          map_of (body (h' ! 0)) ''port2'' = Some 0 \<and>
          map_of (body (h' ! 0)) ''port4'' = Some 2 \<and>
          map_of (body (h' ! 0)) ''port1'' = Some 3 \<and>
          map_of (body (h' ! 0)) ''port3'' = Some 1)"
proof -
  let ?f = "[(''hi'', 4), (''mid'', 12), (''lo'', 8::nat)]"
  let ?g = "[(''port4'', 2), (''port3'', 2), (''port2'', 2), (''port1'', 2::nat)]"
  let ?ports = "[''port1'', ''port2'', ''port3'', ''port4'']"
  have w: "(24::int) \<in> {8, 16, 24, 32}" by simp
  have a: "(0::int) \<le> 0x3194" "(0x3194::int) < 2 ^ 16" by simp_all
  have v: "(0::int) \<le> 0xABCDEF" "(0xABCDEF::int) < 2 ^ nat 24" by simp_all
  have fs: "int (sum_list (map snd ?f)) = 24" "distinct (map fst ?f)" by simp_all
  have fv: "field_values ?f 24 0xABCDEF = [(''hi'', 0xA), (''mid'', 0xBCD), (''lo'', 0xEF)]"
    by (simp add: take_bit_eq_mod drop_bit_eq_div)
  have un: "''main::word'' \<notin> set REGISTER_NEEDS_PORT_REMAP"
    by (simp add: REGISTER_NEEDS_PORT_REMAP_def)
  from decode_encode_through_remap [OF w a v fs, of "''main::word''" "[]"] un
  obtain stream h' where
    e: "encode_stream 0x3194 24 0xABCDEF = Inr stream"
    and s: "stream = be_bytes 2 0x3194 @ [word_of_int (24 div 8)] @
                      (if (24::int) = 24 then be_bytes 4 (push_bit 8 0xABCDEF)
                       else be_bytes (nat (24 div 8)) 0xABCDEF)"
    and r: "parse_register (registers_parse ?f) [] ''main::word'' stream
              = Inr (h', length ([] :: heap))"
    and o: "h' ! length ([] :: heap) = \<lparr>addr = 0x3194, len = 24 div 8,
                                           body = field_values ?f (nat 24) 0xABCDEF\<rparr>"
    and j: "fields_value ?f (body (h' ! length ([] :: heap))) 0 = 0xABCDEF"
    by blast
  have st: "stream = [0x31, 0x94, 3, 0xAB, 0xCD, 0xEF, 0]"
    unfolding s by (simp add: be_bytes_numeral push_bit_eq_mult)
  have first: "encode_stream 0x3194 24 0xABCDEF = Inr [0x31, 0x94, 3, 0xAB, 0xCD, 0xEF, 0] \<and>
   (\<exists>h'. parse_register (registers_parse ?f) []
            ''main::word'' [0x31, 0x94, 3, 0xAB, 0xCD, 0xEF, 0] = Inr (h', 0) \<and>
          h' ! 0 = \<lparr>addr = 0x3194, len = 3,
                     body = [(''hi'', 0xA), (''mid'', 0xBCD), (''lo'', 0xEF)]\<rparr> \<and>
          fields_value ?f (body (h' ! 0)) 0 = 0xABCDEF)"
    using e r o j unfolding st by (auto simp: fv)
  have w2: "(8::int) \<in> {8, 16, 24, 32}" by simp
  have a2: "(0::int) \<le> 0x3140" "(0x3140::int) < 2 ^ 16" by simp_all
  have v2: "(0::int) \<le> 0x78" "(0x78::int) < 2 ^ nat 8" by simp_all
  have fs2: "int (sum_list (map snd ?g)) = 8" "distinct (map fst ?g)" by simp_all
  have fv2: "field_values ?g 8 0x78
               = [(''port4'', 1), (''port3'', 3), (''port2'', 2), (''port1'', 0)]"
    by (simp add: take_bit_eq_mod drop_bit_eq_div)
  have li: "''port::device_speed'' \<in> set REGISTER_NEEDS_PORT_REMAP"
    by (simp add: REGISTER_NEEDS_PORT_REMAP_def)
  from decode_encode_through_remap [OF w2 a2 v2 fs2, of "''port::device_speed''" "[]"] li
  obtain stream2 h2 where
    e2: "encode_stream 0x3140 8 0x78 = Inr stream2"
    and s2: "stream2 = be_bytes 2 0x3140 @ [word_of_int (8 div 8)] @
                      (if (8::int) = 24 then be_bytes 4 (push_bit 8 0x78)
                       else be_bytes (nat (8 div 8)) 0x78)"
    and r2: "parse_register (registers_parse ?g) [] ''port::device_speed'' stream2
              = Inr (h2, length ([] :: heap))"
    and hd: "addr (h2 ! length ([] :: heap)) = 0x3140"
      "len (h2 ! length ([] :: heap)) = 8 div 8"
    and m: "\<forall>i<4. \<forall>x. map_of (field_values ?g (nat 8) 0x78) (?ports ! i) = Some x
               \<longrightarrow> map_of (body (h2 ! length ([] :: heap))) (PORT_MAP ! i) = Some x"
    by blast
  have st2: "stream2 = [0x31, 0x40, 1, 0x78]"
    unfolding s2 by (simp add: be_bytes_numeral)
  have m': "\<forall>i<4. \<forall>x. map_of [(''port4'', 1), (''port3'', 3), (''port2'', 2), (''port1'', 0)]
                        (?ports ! i) = Some x
               \<longrightarrow> map_of (body (h2 ! 0)) (PORT_MAP ! i) = Some x"
    using m by (simp add: fv2)
  have p2: "map_of (body (h2 ! 0)) ''port2'' = Some 0"
    using m' [rule_format, of 0 0] by (simp add: PORT_MAP_def)
  have p4: "map_of (body (h2 ! 0)) ''port4'' = Some 2"
    using m' [rule_format, of 1 2] by (simp add: PORT_MAP_def)
  have p1: "map_of (body (h2 ! 0)) ''port1'' = Some 3"
    using m' [rule_format, of 2 3] by (simp add: PORT_MAP_def)
  have p3: "map_of (body (h2 ! 0)) ''port3'' = Some 1"
    using m' [rule_format, of 3 1] by (simp add: PORT_MAP_def)
  have second: "encode_stream 0x3140 8 0x78 = Inr [0x31, 0x40, 1, 0x78] \<and>
   (\<exists>h'. parse_register (registers_parse ?g) []
            ''port::device_speed'' [0x31, 0x40, 1, 0x78] = Inr (h', 0) \<and>
          addr (h' ! 0) = 0x3140 \<and> len (h' ! 0) = 1 \<and>
          map_of (body (h' ! 0)) ''port2'' = Some 0 \<and>
          map_of (body (h' ! 0)) ''port4'' = Some 2 \<and>
          map_of (body (h' ! 0)) ''port1'' = Some 3 \<and>
          map_of (body (h' ! 0)) ''port3'' = Some 1)"
    using e2 r2 hd p2 p4 p1 p3 unfolding st2 by auto
  from first second show ?thesis by blast
qed

end
